theory Spec2Isabelle
  imports Main "HOL-Library.Sublist"
begin

section \<open>JavaScript values\<close>

text \<open>
  The values that hooks return, throw and pass to \<^verbatim>\<open>next\<close>. \<open>JError m\<close> is an
  \<^verbatim>\<open>Error\<close> object built from the message argument \<open>m\<close>; \<open>JPromise p\<close> is a
  thenable; \<open>JObject n\<close> is any other object. Numbers are integers here: of the two
  falsy numbers only zero is a value of the model, \<^verbatim>\<open>NaN\<close> is not.
\<close>

datatype js_value =
    JUndefined
  | JNull
  | JBool bool
  | JNum int
  | JStr string
  | JError js_value
  | JPromise nat
  | JObject nat

text \<open>JavaScript truthiness, as used by \<^verbatim>\<open>err && ...\<close> and \<^verbatim>\<open>ok ? ... : ...\<close>.\<close>

fun truthy :: "js_value \<Rightarrow> bool" where
  "truthy JUndefined = False"
| "truthy JNull = False"
| "truthy (JBool b) = b"
| "truthy (JNum n) = (n \<noteq> 0)"
| "truthy (JStr s) = (s \<noteq> [])"
| "truthy (JError m) = True"
| "truthy (JPromise p) = True"
| "truthy (JObject n) = True"

text \<open>\<^verbatim>\<open>err instanceof Error\<close>.\<close>

fun instanceof_Error :: "js_value \<Rightarrow> bool" where
  "instanceof_Error (JError m) = True"
| "instanceof_Error v = False"

text \<open>\<^verbatim>\<open>typeof res === 'boolean'\<close>.\<close>

fun typeof_boolean :: "js_value \<Rightarrow> bool" where
  "typeof_boolean (JBool b) = True"
| "typeof_boolean v = False"

text \<open>
  Modelled from the spec: \<^verbatim>\<open>util.isPromise\<close> (util.js is not part of the sources);
  the specification calls the recognised values deferred/awaitable values (thenables).
\<close>

fun isPromise :: "js_value \<Rightarrow> bool" where
  "isPromise (JPromise p) = True"
| "isPromise v = False"

text \<open>An array read \<^verbatim>\<open>xs[i]\<close>: JavaScript yields \<^verbatim>\<open>undefined\<close> past the end.\<close>

definition js_index :: "'a list \<Rightarrow> nat \<Rightarrow> 'a option" where
  "js_index xs i = (if i < length xs then Some (xs ! i) else None)"

section \<open>Routes, router and transition state\<close>

record 'h match =
  handler :: 'h

record 'h route =
  path :: "string option"
  params :: "(string \<times> string) list"
  query :: "(string \<times> string) list"
  matched :: "'h match list option"

text \<open>
  Everything observable that the transition does to its collaborators is appended to a
  trace: \<^verbatim>\<open>util.warn\<close>, \<^verbatim>\<open>router.replace\<close>, \<^verbatim>\<open>router._updateRoute\<close>, the calls of
  the \<^verbatim>\<open>pipeline\<close> functions, the completion callback (\<open>Done\<close>), and a cleanup
  callback that records itself (\<open>Cleanup\<close>). The calls of \<^verbatim>\<open>pipeline.canReuse\<close> are
  returned by the reusability phase instead.
\<close>

datatype ('v, 'h) event =
    Warn string
  | Replace string
  | UpdateRoute
  | CanDeactivate 'v
  | CanActivate 'h
  | Deactivate 'v
  | Reuse 'v
  | Activate 'v nat
  | Cleanup
  | Done

record ('v, 'h) router =
  views :: "'v list"
  suppress :: bool
  current :: "'h route option"

text \<open>The two ways \<^verbatim>\<open>callHook\<close> subscribes to a returned promise.\<close>

datatype then_kind = ThenBoolean | ThenNext

text \<open>
  The fields of a \<^verbatim>\<open>RouteTransition\<close> (\<^verbatim>\<open>to\<close> and \<^verbatim>\<open>from\<close> as \<open>to_route\<close> and
  \<open>from_route\<close>, \<^verbatim>\<open>aborted\<close>, the two queues and the router), together with the trace and with the store of the closure variables
  \<^verbatim>\<open>nextCalled\<close>: every \<^verbatim>\<open>callHook\<close> invocation owns one cell, allocated at \<open>fresh\<close>.
  \<open>thens\<close> lists the promise subscriptions made so far (cell of the invocation and
  kind of the fulfilment callback).
\<close>

record ('v, 'h) transition =
  router :: "('v, 'h) router"
  to_route :: "'h route"
  from_route :: "'h route"
  aborted :: bool
  deactivateQueue :: "'v list"
  activateQueue :: "'h list"
  trace :: "('v, 'h) event list"
  nextCalled :: "nat \<Rightarrow> bool"
  fresh :: nat
  thens :: "(nat \<times> then_kind) list"

text \<open>
  A statement run on the transition: it either completes (\<open>None\<close>) or throws a value,
  and returns the state it leaves behind.
\<close>

type_synonym ('v, 'h) comp = "('v, 'h) transition \<Rightarrow> js_value option \<times> ('v, 'h) transition"

text \<open>The constructor (lines 14-38); \<^verbatim>\<open>this.next = null\<close> is never read again.\<close>

definition RouteTransition ::
  "('v, 'h) router \<Rightarrow> 'h route \<Rightarrow> 'h route \<Rightarrow> ('v, 'h) transition" where
  "RouteTransition r to from' =
     \<lparr> router = r, to_route = to, from_route = from', aborted = False,
       deactivateQueue = views r,
       activateQueue = map handler (case matched to of Some m \<Rightarrow> m | None \<Rightarrow> []),
       trace = [], nextCalled = (\<lambda>c. False), fresh = 0, thens = [] \<rparr>"

section \<open>Phase 1 of start: reusability\<close>

text \<open>
  The loop of lines 104-108, started at \<open>i = 0\<close>. It returns the final value of \<open>i\<close>
  and, in call order, the argument pairs \<^verbatim>\<open>pipeline.canReuse\<close> was applied to.
  \<^verbatim>\<open>rdaq[i]\<close> is read below \<^verbatim>\<open>rdaq.length\<close> only; \<^verbatim>\<open>aq[i]\<close> is read unguarded.
\<close>

function reusability ::
  "('v \<Rightarrow> 'h option \<Rightarrow> ('v, 'h) transition \<Rightarrow> bool) \<Rightarrow> 'v list \<Rightarrow> 'h list \<Rightarrow>
   ('v, 'h) transition \<Rightarrow> nat \<Rightarrow> ('v \<times> 'h option) list \<Rightarrow> nat \<times> ('v \<times> 'h option) list" where
  "reusability canReuse rdaq aq t i checked =
     (if i < length rdaq then
        (if \<not> canReuse (rdaq ! i) (js_index aq i) t
         then (i, checked @ [(rdaq ! i, js_index aq i)])
         else reusability canReuse rdaq aq t (Suc i) (checked @ [(rdaq ! i, js_index aq i)]))
      else (i, checked))"
  by pat_completeness auto
termination
  by (relation "measure (\<lambda>(canReuse, rdaq, aq, t, i, checked). length rdaq - i)") auto

declare reusability.simps [simp del]

text \<open>
  Lines 98-113: the reuse queue (\<open>None\<close> while the variable is still \<^verbatim>\<open>undefined\<close>), the
  remaining deactivate queue, the remaining activate queue, and the checked pairs.
\<close>

definition reusability_phase ::
  "('v \<Rightarrow> 'h option \<Rightarrow> ('v, 'h) transition \<Rightarrow> bool) \<Rightarrow> ('v, 'h) transition \<Rightarrow>
   'v list option \<times> 'v list \<times> 'h list \<times> ('v \<times> 'h option) list" where
  "reusability_phase canReuse t =
     (let daq = deactivateQueue t;
          aq = activateQueue t;
          rdaq = rev daq;
          (i, checked) = reusability canReuse rdaq aq t 0 []
      in if i > 0
         then (Some (take i rdaq), rev (drop i rdaq), drop i aq, checked)
         else (None, daq, aq, checked))"

text \<open>\<^verbatim>\<open>reuseQueue ? reuseQueue.length : 0\<close> (line 133).\<close>

definition reuse_depth :: "'v list option \<Rightarrow> nat" where
  "reuse_depth reuseQueue = (case reuseQueue of Some q \<Rightarrow> length q | None \<Rightarrow> 0)"

section \<open>The control surface: abort and redirect\<close>

definition log_event :: "('v, 'h) event \<Rightarrow> ('v, 'h) transition \<Rightarrow> ('v, 'h) transition" where
  "log_event ev t = t\<lparr>trace := trace t @ [ev]\<rparr>"

text \<open>
  Modelled from the spec: \<^verbatim>\<open>util.warn\<close> (util.js is not part of the sources) surfaces a
  warning and never fails.
\<close>

definition warn :: "string \<Rightarrow> ('v, 'h) transition \<Rightarrow> ('v, 'h) transition" where
  "warn msg t = log_event (Warn msg) t"

text \<open>
  Modelled from the spec: \<^verbatim>\<open>router.replace\<close> (router.js is not part of the sources)
  instructs the navigation system to re-navigate to the given path.
\<close>

definition router_replace :: "string \<Rightarrow> ('v, 'h) transition \<Rightarrow> ('v, 'h) transition" where
  "router_replace p t = log_event (Replace p) t"

text \<open>
  Modelled from the spec: \<^verbatim>\<open>router._updateRoute\<close> (router.js is not part of the sources)
  updates the navigation system's current-location record.
\<close>

definition router_updateRoute :: "'h route \<Rightarrow> ('v, 'h) transition \<Rightarrow> ('v, 'h) transition" where
  "router_updateRoute r t = log_event UpdateRoute (t\<lparr>router := (router t)\<lparr>current := Some r\<rparr>\<rparr>)"

text \<open>\<^verbatim>\<open>this.from.path || '/'\<close>: an absent or empty path is falsy.\<close>

definition from_path_or_root :: "('v, 'h) transition \<Rightarrow> string" where
  "from_path_or_root t =
     (case path (from_route t) of None \<Rightarrow> ''/'' | Some p \<Rightarrow> (if p = [] then ''/'' else p))"

text \<open>\<^verbatim>\<open>RouteTransition.prototype.abort\<close> (lines 44-49).\<close>

definition abort :: "('v, 'h) transition \<Rightarrow> ('v, 'h) transition" where
  "abort t =
     (if \<not> aborted t
      then router_replace (from_path_or_root t) (t\<lparr>aborted := True\<rparr>)
      else t)"

text \<open>
  \<^verbatim>\<open>RouteTransition.prototype.redirect\<close> (lines 57-63). \<^verbatim>\<open>util.mapParams\<close> is not part of
  the sources and is taken as the parameter \<open>mapParams\<close>.
\<close>

definition redirect ::
  "(string \<Rightarrow> (string \<times> string) list \<Rightarrow> (string \<times> string) list \<Rightarrow> string) \<Rightarrow>
   string \<Rightarrow> ('v, 'h) transition \<Rightarrow> ('v, 'h) transition" where
  "redirect mapParams p t =
     (if \<not> aborted t
      then router_replace (mapParams p (params (to_route t)) (query (to_route t)))
             (t\<lparr>aborted := True\<rparr>)
      else t)"

section \<open>callHook\<close>

text \<open>
  The closures that one \<^verbatim>\<open>callHook\<close> invocation creates (lines 179-223). They share
  the invocation's arguments \<open>cb\<close> and \<open>cleanup\<close> (both optional) and its variable
  \<^verbatim>\<open>nextCalled\<close>, which lives in the cell \<open>c\<close> of the store. They stay callable after
  \<^verbatim>\<open>callHook\<close> has returned: by the hook's own later code and by a promise it returned.
  \<open>next_fn\<close> is the closure \<^verbatim>\<open>next\<close> and \<open>abort_fn\<close> the closure \<^verbatim>\<open>abort\<close>, renamed apart
  from the Isar keyword and from the method \<^verbatim>\<open>abort\<close> of the transition.
\<close>

definition next_fn ::
  "nat \<Rightarrow> (js_value \<Rightarrow> ('v, 'h) comp) option \<Rightarrow> js_value \<Rightarrow> ('v, 'h) comp" where
  "next_fn c cb data t =
     (if nextCalled t c
      then (None, warn ''transition.next() should be called only once.'' t)
      else
        (let t1 = t\<lparr>nextCalled := (nextCalled t)(c := True)\<rparr>
         in case cb of
              None \<Rightarrow> (None, t1)
            | Some k \<Rightarrow> (if aborted t1 then (None, t1) else k data t1)))"

definition abort_fn :: "('v, 'h) comp option \<Rightarrow> ('v, 'h) comp" where
  "abort_fn cleanup t =
     (case cleanup of
        None \<Rightarrow> (None, abort t)
      | Some cl \<Rightarrow>
          (case cl t of
             (Some e, t1) \<Rightarrow> (Some e, t1)
           | (None, t1) \<Rightarrow> (None, abort t1)))"

text \<open>The statement \<^verbatim>\<open>cleanup ? next() : abort()\<close> of \<^verbatim>\<open>onError\<close> (line 205).\<close>

definition next_or_abort ::
  "nat \<Rightarrow> (js_value \<Rightarrow> ('v, 'h) comp) option \<Rightarrow> ('v, 'h) comp option \<Rightarrow> ('v, 'h) comp" where
  "next_or_abort c cb cleanup t =
     (case cleanup of
        Some cl \<Rightarrow> next_fn c cb JUndefined t
      | None \<Rightarrow> abort_fn cleanup t)"

definition onError ::
  "nat \<Rightarrow> (js_value \<Rightarrow> ('v, 'h) comp) option \<Rightarrow> ('v, 'h) comp option \<Rightarrow> js_value \<Rightarrow>
   ('v, 'h) comp" where
  "onError c cb cleanup err t =
     (case next_or_abort c cb cleanup t of
        (Some e, t1) \<Rightarrow> (Some e, t1)
      | (None, t1) \<Rightarrow>
          (if truthy err \<and> \<not> suppress (router t1)
           then (Some (if instanceof_Error err then err else JError err),
                 warn ''Uncaught error during transition: '' t1)
           else (None, t1)))"

text \<open>
  A hook is user code. What it can do to the transition goes through the exposed
  object, and the calls on it return nothing, so a hook is a tree: it returns a value,
  or throws one, or makes a call on \<^verbatim>\<open>exposed\<close> and goes on, one way when the call
  returns and another (given the exception) when the call throws. A hook that does not
  catch goes on with \<open>Throws\<close>.
\<close>

datatype hook_call = CallNext js_value | CallAbort | CallRedirect string

datatype hook =
    Returns js_value
  | Throws js_value
  | Calls hook_call hook "js_value \<Rightarrow> hook"

text \<open>One call on the exposed object (lines 215-223).\<close>

definition exposed_call ::
  "(string \<Rightarrow> (string \<times> string) list \<Rightarrow> (string \<times> string) list \<Rightarrow> string) \<Rightarrow>
   nat \<Rightarrow> (js_value \<Rightarrow> ('v, 'h) comp) option \<Rightarrow> ('v, 'h) comp option \<Rightarrow> hook_call \<Rightarrow>
   ('v, 'h) comp" where
  "exposed_call mapParams c cb cleanup call t =
     (case call of
        CallNext d \<Rightarrow> next_fn c cb d t
      | CallAbort \<Rightarrow> abort_fn cleanup t
      | CallRedirect p \<Rightarrow> (None, redirect mapParams p t))"

text \<open>\<^verbatim>\<open>hook.call(context, exposed)\<close>: \<open>Inl\<close> is a thrown value, \<open>Inr\<close> the returned one.\<close>

primrec run_hook ::
  "(string \<Rightarrow> (string \<times> string) list \<Rightarrow> (string \<times> string) list \<Rightarrow> string) \<Rightarrow>
   nat \<Rightarrow> (js_value \<Rightarrow> ('v, 'h) comp) option \<Rightarrow> ('v, 'h) comp option \<Rightarrow> hook \<Rightarrow>
   ('v, 'h) transition \<Rightarrow> (js_value + js_value) \<times> ('v, 'h) transition" where
  "run_hook mapParams c cb cleanup (Returns v) = (\<lambda>t. (Inr v, t))"
| "run_hook mapParams c cb cleanup (Throws e) = (\<lambda>t. (Inl e, t))"
| "run_hook mapParams c cb cleanup (Calls x rest catch) =
     (\<lambda>t. case exposed_call mapParams c cb cleanup x t of
             (None, t1) \<Rightarrow> run_hook mapParams c cb cleanup rest t1
           | (Some e, t1) \<Rightarrow> run_hook mapParams c cb cleanup (catch e) t1)"

text \<open>\<^verbatim>\<open>var nextCalled = false\<close>: a new cell of the store.\<close>

definition alloc :: "('v, 'h) transition \<Rightarrow> nat \<times> ('v, 'h) transition" where
  "alloc t = (fresh t, t\<lparr>nextCalled := (nextCalled t)(fresh t := False), fresh := Suc (fresh t)\<rparr>)"

text \<open>\<^verbatim>\<open>res.then(...)\<close>: the subscription is recorded; nothing runs now.\<close>

definition subscribe :: "nat \<Rightarrow> then_kind \<Rightarrow> ('v, 'h) transition \<Rightarrow> ('v, 'h) transition" where
  "subscribe c k t = t\<lparr>thens := thens t @ [(c, k)]\<rparr>"

text \<open>
  \<^verbatim>\<open>RouteTransition.prototype.callHook\<close> (lines 177-246), up to its return. The receiver
  \<^verbatim>\<open>context\<close> only reaches the hook and is left out.
\<close>

definition callHook ::
  "(string \<Rightarrow> (string \<times> string) list \<Rightarrow> (string \<times> string) list \<Rightarrow> string) \<Rightarrow>
   hook \<Rightarrow> (js_value \<Rightarrow> ('v, 'h) comp) option \<Rightarrow> bool \<Rightarrow> ('v, 'h) comp option \<Rightarrow>
   ('v, 'h) comp" where
  "callHook mapParams hook cb expectBoolean cleanup t =
     (let (c, t0) = alloc t
      in case run_hook mapParams c cb cleanup hook t0 of
           (Inl err, t1) \<Rightarrow> onError c cb cleanup err t1
         | (Inr res, t1) \<Rightarrow>
             (if expectBoolean then
                (if typeof_boolean res then
                   (if truthy res then next_fn c cb JUndefined t1 else abort_fn cleanup t1)
                 else if isPromise res then (None, subscribe c ThenBoolean t1)
                 else (None, t1))
              else if isPromise res then (None, subscribe c ThenNext t1)
              else (None, t1)))"

text \<open>
  The callbacks given to \<^verbatim>\<open>res.then\<close> (lines 239-241 and 244), run when the promise
  settles. An exception they throw stays inside the promise machinery.
\<close>

definition then_fulfilled ::
  "then_kind \<Rightarrow> nat \<Rightarrow> (js_value \<Rightarrow> ('v, 'h) comp) option \<Rightarrow> ('v, 'h) comp option \<Rightarrow>
   js_value \<Rightarrow> ('v, 'h) comp" where
  "then_fulfilled kind c cb cleanup v t =
     (case kind of
        ThenBoolean \<Rightarrow> (if truthy v then next_fn c cb JUndefined t else abort_fn cleanup t)
      | ThenNext \<Rightarrow> next_fn c cb v t)"

definition then_rejected ::
  "nat \<Rightarrow> (js_value \<Rightarrow> ('v, 'h) comp) option \<Rightarrow> ('v, 'h) comp option \<Rightarrow> js_value \<Rightarrow>
   ('v, 'h) comp" where
  "then_rejected c cb cleanup err t = onError c cb cleanup err t"

section \<open>runQueue and start\<close>

text \<open>\<^verbatim>\<open>step\<close> of \<^verbatim>\<open>runQueue\<close> (lines 155-163); \<^verbatim>\<open>nextStep\<close> ignores its argument.\<close>

function step ::
  "'a list \<Rightarrow> ('a \<Rightarrow> (js_value \<Rightarrow> ('v, 'h) comp) \<Rightarrow> ('v, 'h) comp) \<Rightarrow> ('v, 'h) comp \<Rightarrow> nat \<Rightarrow>
   ('v, 'h) comp" where
  "step queue fn cb index =
     (if index \<ge> length queue then cb
      else fn (queue ! index) (\<lambda>data. step queue fn cb (index + 1)))"
  by pat_completeness auto
termination
  by (relation "measure (\<lambda>(queue, fn, cb, index). length queue - index)") auto

declare step.simps [simp del]

definition runQueue ::
  "'a list \<Rightarrow> ('a \<Rightarrow> (js_value \<Rightarrow> ('v, 'h) comp) \<Rightarrow> ('v, 'h) comp) \<Rightarrow> ('v, 'h) comp \<Rightarrow>
   ('v, 'h) comp" where
  "runQueue queue fn cb = step queue fn cb 0"

text \<open>The functions of the \<^verbatim>\<open>pipeline\<close> module, which \<^verbatim>\<open>start\<close> takes as given.\<close>

record ('v, 'h) pipeline =
  canReuse :: "'v \<Rightarrow> 'h option \<Rightarrow> ('v, 'h) transition \<Rightarrow> bool"
  canDeactivate :: "'v \<Rightarrow> (js_value \<Rightarrow> ('v, 'h) comp) \<Rightarrow> ('v, 'h) comp"
  canActivate :: "'h \<Rightarrow> (js_value \<Rightarrow> ('v, 'h) comp) \<Rightarrow> ('v, 'h) comp"
  deactivate :: "'v \<Rightarrow> (js_value \<Rightarrow> ('v, 'h) comp) \<Rightarrow> ('v, 'h) comp"
  reuse :: "'v \<Rightarrow> ('v, 'h) comp"
  activate :: "'v \<Rightarrow> nat \<Rightarrow> ('v, 'h) comp \<Rightarrow> ('v, 'h) comp"

text \<open>\<^verbatim>\<open>reuseQueue.forEach\<close> (lines 125-127): an exception ends the iteration.\<close>

fun forEach :: "('a \<Rightarrow> ('v, 'h) comp) \<Rightarrow> 'a list \<Rightarrow> ('v, 'h) comp" where
  "forEach f [] t = (None, t)"
| "forEach f (x # xs) t =
     (case f x t of
        (Some e, t1) \<Rightarrow> (Some e, t1)
      | (None, t1) \<Rightarrow> forEach f xs t1)"

text \<open>The callback \<^verbatim>\<open>activatePhase\<close> (lines 118-138).\<close>

definition activatePhase ::
  "('v, 'h) pipeline \<Rightarrow> 'v list option \<Rightarrow> 'v list \<Rightarrow> ('v, 'h) comp \<Rightarrow> ('v, 'h) comp" where
  "activatePhase P reuseQueue daq cb t =
     (let t1 = router_updateRoute (to_route t) t
      in case (case reuseQueue of
                 Some q \<Rightarrow> forEach (reuse P) q t1
               | None \<Rightarrow> (None, t1)) of
           (Some e, t2) \<Rightarrow> (Some e, t2)
         | (None, t2) \<Rightarrow>
             (if daq \<noteq> []
              then activate P (daq ! (length daq - 1)) (reuse_depth reuseQueue) cb t2
              else cb t2))"

text \<open>The callbacks \<^verbatim>\<open>deactivatePhase\<close> and \<^verbatim>\<open>canActivatePhase\<close> (lines 116-118).\<close>

definition deactivatePhase ::
  "('v, 'h) pipeline \<Rightarrow> 'v list option \<Rightarrow> 'v list \<Rightarrow> ('v, 'h) comp \<Rightarrow> ('v, 'h) comp" where
  "deactivatePhase P reuseQueue daq cb =
     runQueue daq (deactivate P) (activatePhase P reuseQueue daq cb)"

definition canActivatePhase ::
  "('v, 'h) pipeline \<Rightarrow> 'v list option \<Rightarrow> 'v list \<Rightarrow> 'h list \<Rightarrow> ('v, 'h) comp \<Rightarrow>
   ('v, 'h) comp" where
  "canActivatePhase P reuseQueue daq aq cb =
     runQueue aq (canActivate P) (deactivatePhase P reuseQueue daq cb)"

text \<open>\<^verbatim>\<open>RouteTransition.prototype.start\<close> (lines 96-141).\<close>

definition start :: "('v, 'h) pipeline \<Rightarrow> ('v, 'h) comp \<Rightarrow> ('v, 'h) comp" where
  "start P cb t =
     (let (reuseQueue, daq, aq, checked) = reusability_phase (canReuse P) t
      in runQueue daq (canDeactivate P) (canActivatePhase P reuseQueue daq aq cb) t)"

section \<open>The pipeline module, from its specification\<close>

text \<open>
  pipeline.js is not part of the sources. Its hooks are user code attached to the views
  and handlers; \<open>hooks\<close> gives the hook of each of them.
\<close>

record ('v, 'h) hooks =
  canDeactivateHook :: "'v \<Rightarrow> hook"
  canActivateHook :: "'h \<Rightarrow> hook"
  deactivateHook :: "'v \<Rightarrow> hook"

text \<open>
  Modelled from the spec: \<^verbatim>\<open>pipeline.canDeactivate\<close> is missing; it goes through the hook
  invocation protocol with \<^verbatim>\<open>expectBoolean = true\<close> and without a cleanup.
\<close>

definition pipeline_canDeactivate ::
  "(string \<Rightarrow> (string \<times> string) list \<Rightarrow> (string \<times> string) list \<Rightarrow> string) \<Rightarrow>
   ('v, 'h) hooks \<Rightarrow> 'v \<Rightarrow> (js_value \<Rightarrow> ('v, 'h) comp) \<Rightarrow> ('v, 'h) comp" where
  "pipeline_canDeactivate mapParams H view nxt t =
     callHook mapParams (canDeactivateHook H view) (Some nxt) True None
       (log_event (CanDeactivate view) t)"

text \<open>
  Modelled from the spec: \<^verbatim>\<open>pipeline.canActivate\<close> is missing; it goes through the hook
  invocation protocol with \<^verbatim>\<open>expectBoolean = true\<close> and without a cleanup.
\<close>

definition pipeline_canActivate ::
  "(string \<Rightarrow> (string \<times> string) list \<Rightarrow> (string \<times> string) list \<Rightarrow> string) \<Rightarrow>
   ('v, 'h) hooks \<Rightarrow> 'h \<Rightarrow> (js_value \<Rightarrow> ('v, 'h) comp) \<Rightarrow> ('v, 'h) comp" where
  "pipeline_canActivate mapParams H h nxt t =
     callHook mapParams (canActivateHook H h) (Some nxt) True None
       (log_event (CanActivate h) t)"

text \<open>
  Modelled from the spec: \<^verbatim>\<open>pipeline.deactivate\<close> is missing; it goes through the hook
  invocation protocol with \<^verbatim>\<open>expectBoolean = false\<close> and pre-commit semantics (no
  cleanup).
\<close>

definition pipeline_deactivate ::
  "(string \<Rightarrow> (string \<times> string) list \<Rightarrow> (string \<times> string) list \<Rightarrow> string) \<Rightarrow>
   ('v, 'h) hooks \<Rightarrow> 'v \<Rightarrow> (js_value \<Rightarrow> ('v, 'h) comp) \<Rightarrow> ('v, 'h) comp" where
  "pipeline_deactivate mapParams H view nxt t =
     callHook mapParams (deactivateHook H view) (Some nxt) False None
       (log_event (Deactivate view) t)"

text \<open>
  Modelled from the spec: \<^verbatim>\<open>pipeline.reuse\<close> is missing; a fire-and-forget notification
  without continuation.
\<close>

definition pipeline_reuse :: "'v \<Rightarrow> ('v, 'h) comp" where
  "pipeline_reuse view t = (None, log_event (Reuse view) t)"

text \<open>
  Modelled from the spec: \<^verbatim>\<open>pipeline.activate\<close> is missing; it activates the remaining
  chain beneath the view at the given depth and calls \<^verbatim>\<open>done\<close> exactly once.
\<close>

definition pipeline_activate :: "'v \<Rightarrow> nat \<Rightarrow> ('v, 'h) comp \<Rightarrow> ('v, 'h) comp" where
  "pipeline_activate view depth cb t = cb (log_event (Activate view depth) t)"

definition spec_pipeline ::
  "(string \<Rightarrow> (string \<times> string) list \<Rightarrow> (string \<times> string) list \<Rightarrow> string) \<Rightarrow>
   ('v, 'h) hooks \<Rightarrow> ('v \<Rightarrow> 'h option \<Rightarrow> ('v, 'h) transition \<Rightarrow> bool) \<Rightarrow> ('v, 'h) pipeline" where
  "spec_pipeline mapParams H cr =
     \<lparr> canReuse = cr,
       canDeactivate = pipeline_canDeactivate mapParams H,
       canActivate = pipeline_canActivate mapParams H,
       deactivate = pipeline_deactivate mapParams H,
       reuse = pipeline_reuse,
       activate = pipeline_activate \<rparr>"

text \<open>The completion callback given to \<^verbatim>\<open>start\<close> by the navigation system, as a trace entry.\<close>

definition done_cb :: "('v, 'h) comp" where
  "done_cb t = (None, log_event Done t)"

section \<open>The order of the pipeline calls\<close>

text \<open>The trace entries that are calls of the pipeline.\<close>

fun pipeline_event :: "('v, 'h) event \<Rightarrow> bool" where
  "pipeline_event (Warn m) = False"
| "pipeline_event (Replace p) = False"
| "pipeline_event Cleanup = False"
| "pipeline_event ev = True"

definition pipeline_calls :: "('v, 'h) transition \<Rightarrow> ('v, 'h) event list" where
  "pipeline_calls t = filter pipeline_event (trace t)"

text \<open>
  The calls of a transition that runs to its end, in order, for the queues left by the
  reusability phase.
\<close>

definition hook_order :: "'v list \<Rightarrow> 'h list \<Rightarrow> ('v, 'h) event list" where
  "hook_order daq aq = map CanDeactivate daq @ map CanActivate aq @ map Deactivate daq"

definition commit_order :: "'v list option \<Rightarrow> 'v list \<Rightarrow> ('v, 'h) event list" where
  "commit_order reuseQueue daq =
     UpdateRoute # map Reuse (case reuseQueue of Some q \<Rightarrow> q | None \<Rightarrow> [])
       @ (if daq \<noteq> [] then [Activate (last daq) (reuse_depth reuseQueue), Done] else [Done])"

definition expected_order :: "'v list option \<Rightarrow> 'v list \<Rightarrow> 'h list \<Rightarrow> ('v, 'h) event list" where
  "expected_order reuseQueue daq aq = hook_order daq aq @ commit_order reuseQueue daq"

section \<open>What happens after start has returned\<close>

text \<open>
  A hook may act after \<^verbatim>\<open>callHook\<close> has returned: its own later code calls
  \<^verbatim>\<open>next\<close>, \<^verbatim>\<open>abort\<close> or \<^verbatim>\<open>redirect\<close> on the exposed object, or the promise it returned
  settles. The hooks of a transition are numbered in the order of \<open>hook_order\<close>; the
  \<open>k\<close>-th of them owns the cell \<open>f0 + k\<close>, where \<open>f0\<close> is the first cell free when
  \<^verbatim>\<open>start\<close> was called.
\<close>

datatype async_event = HookCalls nat hook_call | Fulfils nat js_value | Rejects nat js_value

text \<open>
  The \<^verbatim>\<open>nextStep\<close> closure that \<^verbatim>\<open>runQueue\<close> handed to the \<open>k\<close>-th hook (line 159), and
  which the pipeline function passed on to \<^verbatim>\<open>callHook\<close> as \<open>cb\<close>.
\<close>

definition hook_closure_cb ::
  "('v, 'h) pipeline \<Rightarrow> 'v list option \<Rightarrow> 'v list \<Rightarrow> 'h list \<Rightarrow> ('v, 'h) comp \<Rightarrow> nat \<Rightarrow>
   js_value \<Rightarrow> ('v, 'h) comp" where
  "hook_closure_cb P reuseQueue daq aq cb k =
     (if k < length daq then
        (\<lambda>data. step daq (canDeactivate P) (canActivatePhase P reuseQueue daq aq cb) (k + 1))
      else if k < length daq + length aq then
        (\<lambda>data. step aq (canActivate P) (deactivatePhase P reuseQueue daq cb)
                  (k - length daq + 1))
      else
        (\<lambda>data. step daq (deactivate P) (activatePhase P reuseQueue daq cb)
                  (k - (length daq + length aq) + 1)))"

text \<open>
  One later event, run to completion. It reaches a hook only once its \<^verbatim>\<open>callHook\<close> has
  happened, and a promise callback only if \<^verbatim>\<open>callHook\<close> subscribed one. An exception
  that escapes is reported by the host and leaves the state as it is then.
\<close>

definition deliver ::
  "(string \<Rightarrow> (string \<times> string) list \<Rightarrow> (string \<times> string) list \<Rightarrow> string) \<Rightarrow>
   ('v, 'h) pipeline \<Rightarrow> 'v list option \<Rightarrow> 'v list \<Rightarrow> 'h list \<Rightarrow> ('v, 'h) comp \<Rightarrow> nat \<Rightarrow>
   ('v, 'h) transition \<Rightarrow> async_event \<Rightarrow> ('v, 'h) transition" where
  "deliver mapParams P reuseQueue daq aq cb f0 t ev =
     (case ev of
        HookCalls k call \<Rightarrow>
          (if k < length (hook_order daq aq) \<and> f0 + k < fresh t
           then snd (exposed_call mapParams (f0 + k)
                       (Some (hook_closure_cb P reuseQueue daq aq cb k)) None call t)
           else t)
      | Fulfils k v \<Rightarrow>
          (if k < length (hook_order daq aq) \<and> f0 + k < fresh t
           then (case map_of (thens t) (f0 + k) of
                   Some kind \<Rightarrow>
                     snd (then_fulfilled kind (f0 + k)
                            (Some (hook_closure_cb P reuseQueue daq aq cb k)) None v t)
                 | None \<Rightarrow> t)
           else t)
      | Rejects k err \<Rightarrow>
          (if k < length (hook_order daq aq) \<and> f0 + k < fresh t
           then (case map_of (thens t) (f0 + k) of
                   Some kind \<Rightarrow>
                     snd (then_rejected (f0 + k)
                            (Some (hook_closure_cb P reuseQueue daq aq cb k)) None err t)
                 | None \<Rightarrow> t)
           else t))"

text \<open>
  A whole run: \<^verbatim>\<open>start\<close> with the pipeline above, then the later events one after the
  other.
\<close>

definition run_transition ::
  "(string \<Rightarrow> (string \<times> string) list \<Rightarrow> (string \<times> string) list \<Rightarrow> string) \<Rightarrow>
   ('v, 'h) hooks \<Rightarrow> ('v \<Rightarrow> 'h option \<Rightarrow> ('v, 'h) transition \<Rightarrow> bool) \<Rightarrow> async_event list \<Rightarrow>
   ('v, 'h) transition \<Rightarrow> ('v, 'h) transition" where
  "run_transition mapParams H cr evs t =
     (let (reuseQueue, daq, aq, checked) = reusability_phase cr t;
          P = spec_pipeline mapParams H cr
      in foldl (deliver mapParams P reuseQueue daq aq done_cb (fresh t))
           (snd (start P done_cb t)) evs)"

text \<open>
  The invariant of a run: the pipeline calls made since the state with calls \<open>base\<close> are
  a prefix \<open>p\<close> of the expected calls \<open>E\<close>, one cell has been allocated per hook call
  made (the first \<open>N\<close> entries of \<open>E\<close> are hook calls), and a hook whose successor call
  has been made has had its \<^verbatim>\<open>next\<close> called.
\<close>

definition call_order_inv ::
  "nat \<Rightarrow> ('v, 'h) event list \<Rightarrow> ('v, 'h) event list \<Rightarrow> nat \<Rightarrow> ('v, 'h) transition \<Rightarrow> bool" where
  "call_order_inv f0 base E N t \<longleftrightarrow>
     (\<exists>p. pipeline_calls t = base @ p \<and> prefix p E \<and> fresh t = f0 + min (length p) N
        \<and> (\<forall>j. j < N \<and> Suc j < length p \<longrightarrow> nextCalled t (f0 + j)))"

text \<open>The state in which the \<open>k\<close>-th call of \<open>E\<close> is about to be made.\<close>

definition ready ::
  "nat \<Rightarrow> ('v, 'h) event list \<Rightarrow> ('v, 'h) event list \<Rightarrow> nat \<Rightarrow> ('v, 'h) transition \<Rightarrow> bool" where
  "ready f0 base E k s \<longleftrightarrow>
     fresh s = f0 + k \<and> pipeline_calls s = base @ take k E \<and> (\<forall>j<k. nextCalled s (f0 + j))"

text \<open>A continuation that, entered in such a state, keeps the invariant.\<close>

definition runs ::
  "nat \<Rightarrow> ('v, 'h) event list \<Rightarrow> ('v, 'h) event list \<Rightarrow> nat \<Rightarrow> nat \<Rightarrow> ('v, 'h) comp \<Rightarrow> bool" where
  "runs f0 base E N k C \<longleftrightarrow>
     (\<forall>s. ready f0 base E k s \<longrightarrow>
        call_order_inv f0 base E N (snd (C s)) \<and> fresh s \<le> fresh (snd (C s)))"

text \<open>
  The variable \<^verbatim>\<open>nextCalled\<close> is local to its \<^verbatim>\<open>callHook\<close> invocation: no other code can
  write it. In the store that is a property of the code that runs: it allocates new
  cells only, and leaves the cells set that are allocated and set.
\<close>

definition keeps_cells :: "('v, 'h) comp \<Rightarrow> bool" where
  "keeps_cells C \<longleftrightarrow>
     (\<forall>s. fresh s \<le> fresh (snd (C s))
        \<and> (\<forall>c<fresh s. nextCalled s c \<longrightarrow> nextCalled (snd (C s)) c))"

text \<open>
  The invariant of the flag: while the transition is not aborted \<^verbatim>\<open>router.replace\<close> has
  not been called; once it is aborted \<^verbatim>\<open>router.replace\<close> has been called exactly once,
  and no pipeline call has been made since that call.
\<close>

fun is_replace :: "('v, 'h) event \<Rightarrow> bool" where
  "is_replace (Replace p) = True"
| "is_replace ev = False"

definition abort_inv :: "('v, 'h) transition \<Rightarrow> bool" where
  "abort_inv t \<longleftrightarrow>
     (if aborted t
      then length (filter is_replace (trace t)) = 1
         \<and> filter pipeline_event (dropWhile (\<lambda>ev. \<not> is_replace ev) (trace t)) = []
      else filter is_replace (trace t) = [])"

text \<open>A continuation that, entered while the transition is not aborted, keeps it.\<close>

definition keeps_abort_inv :: "('v, 'h) comp \<Rightarrow> bool" where
  "keeps_abort_inv C \<longleftrightarrow> (\<forall>s. abort_inv s \<and> \<not> aborted s \<longrightarrow> abort_inv (snd (C s)))"

section \<open>Example inputs\<close>

definition example_route :: "string \<Rightarrow> string \<Rightarrow> char route" where
  "example_route p hs =
     \<lparr> path = Some p, params = [], query = [],
       matched = Some (map (\<lambda>h. \<lparr> handler = h \<rparr>) hs) \<rparr>"

text \<open>A transition from the view chain \<open>vs\<close> (as \<^verbatim>\<open>router._views\<close> holds it) to the handlers \<open>hs\<close>.\<close>

definition example_transition :: "string \<Rightarrow> string \<Rightarrow> (char, char) transition" where
  "example_transition vs hs =
     RouteTransition \<lparr> views = vs, suppress = False, current = None \<rparr>
       (example_route ''/new'' hs) (example_route ''/old'' [])"

definition same_component :: "char \<Rightarrow> char option \<Rightarrow> (char, char) transition \<Rightarrow> bool" where
  "same_component v h t = (h = Some v)"

definition always_reusable :: "char \<Rightarrow> char option \<Rightarrow> (char, char) transition \<Rightarrow> bool" where
  "always_reusable v h t = True"

definition example_mapParams ::
  "string \<Rightarrow> (string \<times> string) list \<Rightarrow> (string \<times> string) list \<Rightarrow> string" where
  "example_mapParams p ps qs = p"

definition example_cleanup :: "(char, char) comp" where
  "example_cleanup t = (None, log_event Cleanup t)"

definition example_cb :: "js_value \<Rightarrow> (char, char) comp" where
  "example_cb data t = (None, log_event Done t)"

text \<open>
  Hooks for the examples: \<^verbatim>\<open>canDeactivate\<close> returns a promise, \<^verbatim>\<open>canActivate\<close> returns
  \<^verbatim>\<open>true\<close> except for the handler \<open>X\<close>, which returns \<^verbatim>\<open>false\<close>, and \<^verbatim>\<open>deactivate\<close> calls
  \<^verbatim>\<open>next\<close> itself.
\<close>

definition example_hooks :: "(char, char) hooks" where
  "example_hooks =
     \<lparr> canDeactivateHook = (\<lambda>v. Returns (JPromise 1)),
       canActivateHook =
         (\<lambda>h. if h = CHR ''X'' then Returns (JBool False)
              else Returns (JBool True)),
       deactivateHook = (\<lambda>v. Calls (CallNext JUndefined) (Returns JUndefined) Throws) \<rparr>"

text \<open>
  A run that waits for the promise of its first hook, and the continuation that this
  hook's \<^verbatim>\<open>callHook\<close> was given.
\<close>

definition example_stalled :: "(char, char) transition" where
  "example_stalled =
     snd (start (spec_pipeline example_mapParams example_hooks same_component) done_cb
            (example_transition ''BA'' ''AC''))"

definition example_next :: "js_value \<Rightarrow> (char, char) comp" where
  "example_next =
     hook_closure_cb (spec_pipeline example_mapParams example_hooks same_component)
       (Some ''A'') ''B'' ''C'' done_cb 0"

section \<open>Facts about the reusability phase\<close>

lemmas example_defs = example_route_def example_transition_def RouteTransition_def
  same_component_def always_reusable_def example_mapParams_def example_cleanup_def
  example_cb_def

lemma reusability_result:
  assumes "i \<le> length rdaq" and "reusability cr rdaq aq t i chk = (n, chk')"
  shows "i \<le> n \<and> n \<le> length rdaq
       \<and> (\<forall>j. i \<le> j \<and> j < n \<longrightarrow> cr (rdaq ! j) (js_index aq j) t)
       \<and> (n < length rdaq \<longrightarrow> \<not> cr (rdaq ! n) (js_index aq n) t)
       \<and> chk' = chk @ map (\<lambda>j. (rdaq ! j, js_index aq j)) [i..<min (Suc n) (length rdaq)]"
  using assms
proof (induction cr rdaq aq t i chk rule: reusability.induct)
  case (1 cr rdaq aq t i chk)
  show ?case
  proof (cases "i < length rdaq")
    case False
    then have "reusability cr rdaq aq t i chk = (i, chk)"
      by (subst reusability.simps) simp
    with False "1.prems" show ?thesis by auto
  next
    case inr: True
    show ?thesis
    proof (cases "cr (rdaq ! i) (js_index aq i) t")
      case False
      with inr have "reusability cr rdaq aq t i chk = (i, chk @ [(rdaq ! i, js_index aq i)])"
        by (subst reusability.simps) simp
      with False inr "1.prems" show ?thesis by (auto simp add: min_def)
    next
      case True
      from inr True
      have "reusability cr rdaq aq t i chk
          = reusability cr rdaq aq t (Suc i) (chk @ [(rdaq ! i, js_index aq i)])"
        by (subst reusability.simps) simp
      with "1.prems"
      have rec: "reusability cr rdaq aq t (Suc i) (chk @ [(rdaq ! i, js_index aq i)]) = (n, chk')"
        by simp
      from inr have "Suc i \<le> length rdaq" by simp
      from "1.IH" [OF inr _ this rec] True
      have ih: "Suc i \<le> n \<and> n \<le> length rdaq
        \<and> (\<forall>j. Suc i \<le> j \<and> j < n \<longrightarrow> cr (rdaq ! j) (js_index aq j) t)
        \<and> (n < length rdaq \<longrightarrow> \<not> cr (rdaq ! n) (js_index aq n) t)
        \<and> chk' = (chk @ [(rdaq ! i, js_index aq i)])
                @ map (\<lambda>j. (rdaq ! j, js_index aq j)) [Suc i..<min (Suc n) (length rdaq)]"
        by simp
      have "\<forall>j. i \<le> j \<and> j < n \<longrightarrow> cr (rdaq ! j) (js_index aq j) t"
      proof (intro allI impI)
        fix j assume "i \<le> j \<and> j < n"
        then show "cr (rdaq ! j) (js_index aq j) t"
          using ih True by (cases "j = i") auto
      qed
      moreover have "[i..<min (Suc n) (length rdaq)] = i # [Suc i..<min (Suc n) (length rdaq)]"
        using ih inr by (simp add: upt_conv_Cons)
      ultimately show ?thesis using ih by simp
    qed
  qed
qed

lemma reusability_phase_char:
  fixes cr :: "'v \<Rightarrow> 'h option \<Rightarrow> ('v, 'h) transition \<Rightarrow> bool"
  shows "\<exists>i. i \<le> length (deactivateQueue t)
     \<and> (\<forall>j<i. cr (rev (deactivateQueue t) ! j) (js_index (activateQueue t) j) t)
     \<and> (i < length (deactivateQueue t) \<longrightarrow>
          \<not> cr (rev (deactivateQueue t) ! i) (js_index (activateQueue t) i) t)
     \<and> reusability_phase cr t =
         (if i > 0 then Some (take i (rev (deactivateQueue t))) else None,
          if i > 0 then rev (drop i (rev (deactivateQueue t))) else deactivateQueue t,
          if i > 0 then drop i (activateQueue t) else activateQueue t,
          map (\<lambda>j. (rev (deactivateQueue t) ! j, js_index (activateQueue t) j))
            [0..<min (Suc i) (length (deactivateQueue t))])"
proof -
  obtain n chk where
    run: "reusability cr (rev (deactivateQueue t)) (activateQueue t) t 0 [] = (n, chk)"
    by (cases "reusability cr (rev (deactivateQueue t)) (activateQueue t) t 0 []")
  from reusability_result [OF _ run]
  have facts: "n \<le> length (deactivateQueue t)"
    "\<forall>j<n. cr (rev (deactivateQueue t) ! j) (js_index (activateQueue t) j) t"
    "n < length (deactivateQueue t) \<longrightarrow>
       \<not> cr (rev (deactivateQueue t) ! n) (js_index (activateQueue t) n) t"
    "chk = map (\<lambda>j. (rev (deactivateQueue t) ! j, js_index (activateQueue t) j))
            [0..<min (Suc n) (length (deactivateQueue t))]"
    by simp_all
  have "reusability_phase cr t =
         (if n > 0 then Some (take n (rev (deactivateQueue t))) else None,
          if n > 0 then rev (drop n (rev (deactivateQueue t))) else deactivateQueue t,
          if n > 0 then drop n (activateQueue t) else activateQueue t, chk)"
    by (simp add: reusability_phase_def run Let_def)
  with facts show ?thesis by blast
qed

lemma phase_ABC_ABD:
  "reusability_phase same_component (example_transition ''ABC'' ''ABD'')
     = (None, ''ABC'', ''ABD'', [(CHR ''C'', Some (CHR ''A''))])"
  by (simp add: reusability_phase_def example_defs reusability.simps js_index_def)

lemma phase_CBA_ABD:
  "reusability_phase same_component (example_transition ''CBA'' ''ABD'')
     = (Some ''AB'', ''C'', ''D'',
        [(CHR ''A'', Some (CHR ''A'')), (CHR ''B'', Some (CHR ''B'')),
         (CHR ''C'', Some (CHR ''D''))])"
  by (simp add: reusability_phase_def example_defs reusability.simps js_index_def)

lemma phase_ABC_A:
  "reusability_phase always_reusable (example_transition ''ABC'' ''A'')
     = (Some ''CBA'', [], [],
        [(CHR ''C'', Some (CHR ''A'')), (CHR ''B'', None), (CHR ''A'', None)])"
  by (simp add: reusability_phase_def example_defs reusability.simps js_index_def)

text \<open>
  Claim C1, as the code has it. With \<open>rdaq\<close> the reversed deactivate queue, the loop
  tests \<^verbatim>\<open>canReuse(rdaq[i], activateQueue[i], transition)\<close> for \<open>i\<close> from 0 upward: the
  pair at index \<open>i\<close> joins \<open>rdaq[i]\<close> with the handler at the same index of the activate
  queue, which is not reversed (and is absent past its end). The loop stops at the first
  failure or when \<open>rdaq\<close> is exhausted. The recorded checks are exactly the pairs of the
  indices up to the stopping one, and when \<open>i > 0\<close> the reuse queue is \<open>rdaq[0..i)\<close>, the
  remaining deactivate queue is \<open>rdaq[i..)\<close> reversed, and the remaining activate queue
  is \<open>activateQueue[i..)\<close>.
\<close>

theorem reusability_phase_checks_by_index:
  fixes cr :: "'v \<Rightarrow> 'h option \<Rightarrow> ('v, 'h) transition \<Rightarrow> bool"
  shows "\<exists>i. i \<le> length (deactivateQueue t)
     \<and> (\<forall>j<i. cr (rev (deactivateQueue t) ! j) (js_index (activateQueue t) j) t)
     \<and> (i < length (deactivateQueue t) \<longrightarrow>
          \<not> cr (rev (deactivateQueue t) ! i) (js_index (activateQueue t) i) t)
     \<and> snd (snd (snd (reusability_phase cr t))) =
          map (\<lambda>j. (rev (deactivateQueue t) ! j, js_index (activateQueue t) j))
            [0..<min (Suc i) (length (deactivateQueue t))]
     \<and> (i > 0 \<longrightarrow>
          fst (reusability_phase cr t) = Some (take i (rev (deactivateQueue t)))
        \<and> fst (snd (reusability_phase cr t)) = rev (drop i (rev (deactivateQueue t)))
        \<and> fst (snd (snd (reusability_phase cr t))) = drop i (activateQueue t))"
  using reusability_phase_char [of t cr] by auto

theorem reusability_phase_checks_by_index_witness:
  "(0::nat) < 2
   \<and> fst (reusability_phase same_component (example_transition ''CBA'' ''ABD'')) = Some ''AB''
   \<and> fst (snd (reusability_phase same_component (example_transition ''CBA'' ''ABD''))) = ''C''
   \<and> fst (snd (snd (reusability_phase same_component (example_transition ''CBA'' ''ABD''))))
       = ''D''"
  using reusability_phase_checks_by_index [of "example_transition ''CBA'' ''ABD''" same_component]
  by (simp add: phase_CBA_ABD)

text \<open>
  Claim C1 as stated fails. For the deactivate queue \<open>[A, B, C]\<close> and the handlers
  \<open>[A, B, D]\<close> the only pair checked is \<open>(C, A)\<close>; the pair \<open>(C, D)\<close> is never checked.
  When the same chain is stored deepest first, as \<open>[C, B, A]\<close>, the pair checked first
  is \<open>(A, A)\<close> and \<open>(C, D)\<close> comes last. And the loop does not stop when the activate
  queue is exhausted: with handlers \<open>[A]\<close> and a predicate that accepts everything it
  goes on to check \<open>B\<close> and \<open>A\<close> against an absent handler.
\<close>

theorem deepest_pair_not_checked_first:
  "snd (snd (snd (reusability_phase same_component (example_transition ''ABC'' ''ABD''))))
      = [(CHR ''C'', Some (CHR ''A''))]
   \<and> (CHR ''C'', Some (CHR ''D''))
        \<notin> set (snd (snd (snd (reusability_phase same_component
                                  (example_transition ''ABC'' ''ABD'')))))
   \<and> snd (snd (snd (reusability_phase same_component (example_transition ''CBA'' ''ABD''))))
      = [(CHR ''A'', Some (CHR ''A'')), (CHR ''B'', Some (CHR ''B'')),
         (CHR ''C'', Some (CHR ''D''))]
   \<and> snd (snd (snd (reusability_phase always_reusable (example_transition ''ABC'' ''A''))))
      = [(CHR ''C'', Some (CHR ''A'')), (CHR ''B'', None), (CHR ''A'', None)]"
  by (simp add: phase_ABC_ABD phase_CBA_ABD phase_ABC_A)

text \<open>
  Claim C4, as the code has it. A reuse queue \<open>q\<close> is never longer than the deactivate
  queue; it is the prefix of the reversed deactivate queue whose pairs \<^verbatim>\<open>canReuse\<close> all
  accepted, ended by the first failure or by the end of the deactivate queue. It is
  bounded by the activate queue as well whenever \<^verbatim>\<open>canReuse\<close> rejects an absent handler.
\<close>

theorem reuseQueue_length_bound:
  fixes cr :: "'v \<Rightarrow> 'h option \<Rightarrow> ('v, 'h) transition \<Rightarrow> bool"
  assumes "fst (reusability_phase cr t) = Some q"
  shows "length q \<le> length (deactivateQueue t)
     \<and> q = take (length q) (rev (deactivateQueue t))
     \<and> (\<forall>j<length q. cr (rev (deactivateQueue t) ! j) (js_index (activateQueue t) j) t)
     \<and> (length q < length (deactivateQueue t) \<longrightarrow>
          \<not> cr (rev (deactivateQueue t) ! length q) (js_index (activateQueue t) (length q)) t)
     \<and> ((\<forall>v. \<not> cr v None t) \<longrightarrow>
          length q \<le> min (length (deactivateQueue t)) (length (activateQueue t)))"
proof -
  from reusability_phase_char [of t cr] obtain i where
    i: "i \<le> length (deactivateQueue t)"
       "\<forall>j<i. cr (rev (deactivateQueue t) ! j) (js_index (activateQueue t) j) t"
       "i < length (deactivateQueue t) \<longrightarrow>
          \<not> cr (rev (deactivateQueue t) ! i) (js_index (activateQueue t) i) t"
       "fst (reusability_phase cr t)
          = (if i > 0 then Some (take i (rev (deactivateQueue t))) else None)"
    by auto
  from assms i(4) have q: "q = take i (rev (deactivateQueue t))" "i > 0"
    by (auto split: if_splits)
  with i(1) have len: "length q = i" by simp
  have "(\<forall>v. \<not> cr v None t) \<longrightarrow> i \<le> length (activateQueue t)"
  proof (intro impI)
    assume rej: "\<forall>v. \<not> cr v None t"
    show "i \<le> length (activateQueue t)"
    proof (rule ccontr)
      assume "\<not> i \<le> length (activateQueue t)"
      then have lt: "length (activateQueue t) < i" by simp
      with i(2) have "cr (rev (deactivateQueue t) ! length (activateQueue t))
                         (js_index (activateQueue t) (length (activateQueue t))) t"
        by blast
      with rej show False by (simp add: js_index_def)
    qed
  qed
  with i q len show ?thesis by simp
qed

theorem reuseQueue_length_bound_witness:
  "fst (reusability_phase same_component (example_transition ''CBA'' ''ABD'')) = Some ''AB''
   \<and> (\<forall>v. \<not> same_component v None (example_transition ''CBA'' ''ABD''))
   \<and> length ''AB'' \<le> min (length (deactivateQueue (example_transition ''CBA'' ''ABD'')))
                         (length (activateQueue (example_transition ''CBA'' ''ABD'')))"
  using reuseQueue_length_bound [of same_component "example_transition ''CBA'' ''ABD''" "''AB''"]
  by (simp add: phase_CBA_ABD same_component_def)

text \<open>
  Claim C4 as stated fails: with a predicate that accepts every pair, three views and
  one handler, the reuse queue has three elements.
\<close>

theorem reuseQueue_longer_than_activateQueue:
  "fst (reusability_phase always_reusable (example_transition ''ABC'' ''A'')) = Some ''CBA''
   \<and> \<not> length ''CBA'' \<le> min (length (deactivateQueue (example_transition ''ABC'' ''A'')))
                            (length (activateQueue (example_transition ''ABC'' ''A'')))"
  by (simp add: phase_ABC_A) (simp add: example_defs)

text \<open>
  Claim C10. When the view chain is strictly longer than the handler chain and
  \<^verbatim>\<open>canReuse\<close> accepts every pair that has a handler, the loop reaches the index just
  past the end of the activate queue and applies \<^verbatim>\<open>canReuse\<close> to the view there and an
  absent handler.
\<close>

theorem canReuse_applied_to_absent_handler:
  fixes cr :: "'v \<Rightarrow> 'h option \<Rightarrow> ('v, 'h) transition \<Rightarrow> bool"
  assumes longer: "length (activateQueue t) < length (deactivateQueue t)"
    and accepts: "\<forall>j<length (activateQueue t).
                    cr (rev (deactivateQueue t) ! j) (Some (activateQueue t ! j)) t"
  shows "(rev (deactivateQueue t) ! length (activateQueue t), None)
           \<in> set (snd (snd (snd (reusability_phase cr t))))"
proof -
  let ?m = "length (activateQueue t)"
  from reusability_phase_char [of t cr] obtain i where
    i: "i \<le> length (deactivateQueue t)"
       "i < length (deactivateQueue t) \<longrightarrow>
          \<not> cr (rev (deactivateQueue t) ! i) (js_index (activateQueue t) i) t"
       "snd (snd (snd (reusability_phase cr t))) =
          map (\<lambda>j. (rev (deactivateQueue t) ! j, js_index (activateQueue t) j))
            [0..<min (Suc i) (length (deactivateQueue t))]"
    by auto
  have "?m \<le> i"
  proof (rule ccontr)
    assume "\<not> ?m \<le> i"
    then have lt: "i < ?m" by simp
    with longer i(2) have "\<not> cr (rev (deactivateQueue t) ! i) (js_index (activateQueue t) i) t"
      by simp
    with lt accepts show False by (simp add: js_index_def)
  qed
  with longer have "?m \<in> set [0..<min (Suc i) (length (deactivateQueue t))]" by simp
  then have "(rev (deactivateQueue t) ! ?m, js_index (activateQueue t) ?m)
               \<in> set (snd (snd (snd (reusability_phase cr t))))"
    unfolding i(3) set_map by (rule imageI)
  then show ?thesis by (simp add: js_index_def)
qed

theorem canReuse_applied_to_absent_handler_witness:
  "length (activateQueue (example_transition ''ABC'' ''A'')) = 1
   \<and> 1 < length (deactivateQueue (example_transition ''ABC'' ''A''))
   \<and> always_reusable (rev (deactivateQueue (example_transition ''ABC'' ''A'')) ! 0)
        (Some (activateQueue (example_transition ''ABC'' ''A'') ! 0))
        (example_transition ''ABC'' ''A'')
   \<and> (CHR ''B'', None)
        \<in> set (snd (snd (snd (reusability_phase always_reusable
                                 (example_transition ''ABC'' ''A'')))))"
  using canReuse_applied_to_absent_handler [of "example_transition ''ABC'' ''A''" always_reusable]
  by (simp add: phase_ABC_A) (simp add: example_defs)

section \<open>Facts about abort, redirect and the closures of callHook\<close>

lemmas run_defs = callHook_def alloc_def onError_def next_or_abort_def next_fn_def abort_fn_def
  abort_def redirect_def from_path_or_root_def warn_def log_event_def router_replace_def
  subscribe_def exposed_call_def Let_def

lemma abort_aborted [simp]: "aborted (abort t)"
  by (simp add: abort_def router_replace_def log_event_def)

lemma redirect_aborted [simp]: "aborted (redirect mp p t)"
  by (simp add: redirect_def router_replace_def log_event_def)

lemma abort_idle: "aborted t \<Longrightarrow> abort t = t"
  by (simp add: abort_def)

lemma redirect_idle: "aborted t \<Longrightarrow> redirect mp p t = t"
  by (simp add: redirect_def)

lemma next_fn_spent:
  "nextCalled t c \<Longrightarrow>
   next_fn c cb d t
     = (None, t\<lparr>trace := trace t @ [Warn ''transition.next() should be called only once.'']\<rparr>)"
  by (simp add: next_fn_def warn_def log_event_def)

lemma next_fn_aborted:
  "aborted t \<Longrightarrow> \<not> nextCalled t c \<Longrightarrow>
   next_fn c cb d t = (None, t\<lparr>nextCalled := (nextCalled t)(c := True)\<rparr>)"
  by (simp add: next_fn_def Let_def split: option.splits)

lemma next_fn_fresh:
  "\<not> aborted t \<Longrightarrow> \<not> nextCalled t c \<Longrightarrow>
   next_fn c (Some k) d t = k d (t\<lparr>nextCalled := (nextCalled t)(c := True)\<rparr>)"
  by (simp add: next_fn_def Let_def)





lemma step_at: "i < length q \<Longrightarrow> step q fn cb i = fn (q ! i) (\<lambda>d. step q fn cb (i + 1))"
  by (subst step.simps) simp

lemma step_end: "length q \<le> i \<Longrightarrow> step q fn cb i = cb"
  by (subst step.simps) simp











section \<open>The order of the pipeline calls, proved\<close>

lemma inv_quiet:
  assumes "call_order_inv f0 base E N s"
    and "pipeline_calls s' = pipeline_calls s" and "fresh s' = fresh s"
    and "\<And>c. nextCalled s c \<Longrightarrow> nextCalled s' c"
  shows "call_order_inv f0 base E N s'"
  using assms unfolding call_order_inv_def by metis

lemma pipeline_calls_log:
  "pipeline_calls (log_event ev s) = pipeline_calls s @ (if pipeline_event ev then [ev] else [])"
  by (simp add: pipeline_calls_def log_event_def)

lemma abort_quiet:
  "pipeline_calls (abort s) = pipeline_calls s \<and> fresh (abort s) = fresh s
   \<and> nextCalled (abort s) = nextCalled s"
  by (simp add: abort_def router_replace_def pipeline_calls_def log_event_def)

lemma redirect_quiet:
  "pipeline_calls (redirect mp p s) = pipeline_calls s \<and> fresh (redirect mp p s) = fresh s
   \<and> nextCalled (redirect mp p s) = nextCalled s"
  by (simp add: redirect_def router_replace_def pipeline_calls_def log_event_def)

lemma warn_quiet:
  "pipeline_calls (warn m s) = pipeline_calls s \<and> fresh (warn m s) = fresh s
   \<and> nextCalled (warn m s) = nextCalled s"
  by (simp add: warn_def pipeline_calls_def log_event_def)

lemma subscribe_quiet:
  "pipeline_calls (subscribe c k s) = pipeline_calls s \<and> fresh (subscribe c k s) = fresh s
   \<and> nextCalled (subscribe c k s) = nextCalled s"
  by (simp add: subscribe_def pipeline_calls_def)

lemma inv_abort: "call_order_inv f0 base E N s \<Longrightarrow> call_order_inv f0 base E N (abort s)"
  by (rule inv_quiet) (simp_all add: abort_quiet)

lemma inv_redirect: "call_order_inv f0 base E N s \<Longrightarrow> call_order_inv f0 base E N (redirect mp p s)"
  by (rule inv_quiet) (simp_all add: redirect_quiet)

lemma inv_warn: "call_order_inv f0 base E N s \<Longrightarrow> call_order_inv f0 base E N (warn m s)"
  by (rule inv_quiet) (simp_all add: warn_quiet)

lemma inv_subscribe: "call_order_inv f0 base E N s \<Longrightarrow> call_order_inv f0 base E N (subscribe c k s)"
  by (rule inv_quiet) (simp_all add: subscribe_quiet)

lemma next_fn_inv:
  assumes inv: "call_order_inv f0 base E N s"
    and exists: "f0 + k < fresh s" and kN: "k < N"
    and K: "\<forall>d. runs f0 base E N (Suc k) (K d)"
  shows "call_order_inv f0 base E N (snd (next_fn (f0 + k) (Some K) d s))
       \<and> fresh s \<le> fresh (snd (next_fn (f0 + k) (Some K) d s))"
proof (cases "nextCalled s (f0 + k)")
  case True
  then have "next_fn (f0 + k) (Some K) d s
               = (None, warn ''transition.next() should be called only once.'' s)"
    by (simp add: next_fn_def)
  with inv show ?thesis by (simp add: inv_warn warn_quiet)
next
  case unspent: False
  let ?s1 = "s\<lparr>nextCalled := (nextCalled s)(f0 + k := True)\<rparr>"
  from inv obtain p where p: "pipeline_calls s = base @ p" "prefix p E"
      "fresh s = f0 + min (length p) N"
      "\<forall>j. j < N \<and> Suc j < length p \<longrightarrow> nextCalled s (f0 + j)"
    unfolding call_order_inv_def by blast
  from exists p(3) have "k < length p" by simp
  moreover from unspent p(4) kN have "\<not> Suc k < length p" by blast
  ultimately have len: "length p = Suc k" by simp
  with p(2) have ptake: "p = take (Suc k) E"
    by (metis append_eq_conv_conj prefix_def)
  have inv1: "call_order_inv f0 base E N ?s1"
    by (rule inv_quiet [OF inv]) (simp_all add: pipeline_calls_def)
  show ?thesis
  proof (cases "aborted s")
    case True
    with unspent have "next_fn (f0 + k) (Some K) d s = (None, ?s1)"
      by (simp add: next_fn_def Let_def)
    with inv1 show ?thesis by simp
  next
    case False
    with unspent have run: "next_fn (f0 + k) (Some K) d s = K d ?s1"
      by (simp add: next_fn_def Let_def)
    have "ready f0 base E (Suc k) ?s1"
      unfolding ready_def
    proof (intro conjI allI impI)
      show "fresh ?s1 = f0 + Suc k" using p(3) len kN by simp
      show "pipeline_calls ?s1 = base @ take (Suc k) E"
        using p(1) ptake by (simp add: pipeline_calls_def)
      fix j assume "j < Suc k"
      then show "nextCalled ?s1 (f0 + j)"
        using p(4) len kN by (cases "j = k") auto
    qed
    with K have "call_order_inv f0 base E N (snd (K d ?s1)) \<and> fresh ?s1 \<le> fresh (snd (K d ?s1))"
      unfolding runs_def by blast
    with run show ?thesis by simp
  qed
qed

lemma exposed_call_inv:
  assumes inv: "call_order_inv f0 base E N s"
    and exists: "f0 + k < fresh s" and kN: "k < N"
    and K: "\<forall>d. runs f0 base E N (Suc k) (K d)"
  shows "call_order_inv f0 base E N (snd (exposed_call mp (f0 + k) (Some K) None call s))
       \<and> fresh s \<le> fresh (snd (exposed_call mp (f0 + k) (Some K) None call s))"
proof (cases call)
  case (CallNext d)
  with next_fn_inv [OF inv exists kN K] show ?thesis by (simp add: exposed_call_def)
next
  case CallAbort
  with inv show ?thesis by (simp add: exposed_call_def abort_fn_def inv_abort abort_quiet)
next
  case (CallRedirect p)
  with inv show ?thesis by (simp add: exposed_call_def inv_redirect redirect_quiet)
qed

lemma run_hook_inv:
  assumes inv: "call_order_inv f0 base E N s"
    and exists: "f0 + k < fresh s" and kN: "k < N"
    and K: "\<forall>d. runs f0 base E N (Suc k) (K d)"
  shows "call_order_inv f0 base E N (snd (run_hook mp (f0 + k) (Some K) None hook s))
       \<and> fresh s \<le> fresh (snd (run_hook mp (f0 + k) (Some K) None hook s))"
  using inv exists
proof (induction hook arbitrary: s)
  case (Returns v)
  then show ?case by simp
next
  case (Throws e)
  then show ?case by simp
next
  case (Calls x rest catch)
  obtain e s1 where one: "exposed_call mp (f0 + k) (Some K) None x s = (e, s1)"
    by (cases "exposed_call mp (f0 + k) (Some K) None x s")
  from exposed_call_inv [OF Calls.prems(1) Calls.prems(2) kN K, where mp = mp and call = x] one
  have s1: "call_order_inv f0 base E N s1" "fresh s \<le> fresh s1" by simp_all
  with Calls.prems(2) have ex1: "f0 + k < fresh s1" by simp
  show ?case
  proof (cases e)
    case None
    from Calls.IH(1) [OF s1(1) ex1] s1(2) None one show ?thesis by auto
  next
    case (Some exn)
    have "catch exn \<in> range catch" by simp
    from Calls.IH(2) [OF this s1(1) ex1] s1(2) Some one show ?thesis by auto
  qed
qed

lemma onError_inv:
  assumes inv: "call_order_inv f0 base E N s"
    and exists: "f0 + k < fresh s" and kN: "k < N"
    and K: "\<forall>d. runs f0 base E N (Suc k) (K d)"
  shows "call_order_inv f0 base E N (snd (onError (f0 + k) (Some K) None err s))
       \<and> fresh s \<le> fresh (snd (onError (f0 + k) (Some K) None err s))"
  using inv by (simp add: onError_def next_or_abort_def abort_fn_def inv_abort inv_warn
      abort_quiet warn_quiet)

lemma callHook_inv:
  assumes ready: "ready f0 base E k s" and kN: "k < N" and NE: "N \<le> length E"
    and ev: "pipeline_event (E ! k)"
    and K: "\<forall>d. runs f0 base E N (Suc k) (K d)"
  shows "call_order_inv f0 base E N (snd (callHook mp hook (Some K) eb None (log_event (E ! k) s)))
       \<and> fresh s \<le> fresh (snd (callHook mp hook (Some K) eb None (log_event (E ! k) s)))"
proof -
  let ?s0 = "snd (alloc (log_event (E ! k) s))"
  from ready have r: "fresh s = f0 + k" "pipeline_calls s = base @ take k E"
      "\<forall>j<k. nextCalled s (f0 + j)"
    unfolding ready_def by simp_all
  from kN NE have kE: "k < length E" by simp
  have fr0: "fresh ?s0 = f0 + Suc k" using r(1) by (simp add: alloc_def log_event_def)
  have calls0: "pipeline_calls ?s0 = base @ take (Suc k) E"
    using r(2) ev kE by (simp add: alloc_def pipeline_calls_def log_event_def take_Suc_conv_app_nth)
  have inv0: "call_order_inv f0 base E N ?s0"
    unfolding call_order_inv_def
  proof (intro exI [of _ "take (Suc k) E"] conjI allI impI)
    show "pipeline_calls ?s0 = base @ take (Suc k) E" by (rule calls0)
    show "prefix (take (Suc k) E) E" by (rule take_is_prefix)
    show "fresh ?s0 = f0 + min (length (take (Suc k) E)) N" using fr0 kE kN by simp
    fix j assume "j < N \<and> Suc j < length (take (Suc k) E)"
    then have "j < k" by simp
    with r(3) r(1) show "nextCalled ?s0 (f0 + j)" by (simp add: alloc_def log_event_def)
  qed
  have ex0: "f0 + k < fresh ?s0" using fr0 by simp
  have c: "fresh (log_event (E ! k) s) = f0 + k" using r(1) by (simp add: log_event_def)
  obtain res s1 where rh: "run_hook mp (f0 + k) (Some K) None hook ?s0 = (res, s1)"
    by (cases "run_hook mp (f0 + k) (Some K) None hook ?s0")
  from run_hook_inv [OF inv0 ex0 kN K, where mp = mp and hook = hook] rh
  have s1: "call_order_inv f0 base E N s1" "fresh ?s0 \<le> fresh s1" by simp_all
  then have ex1: "f0 + k < fresh s1" using ex0 by simp
  have le: "fresh s \<le> fresh s1" using s1(2) fr0 r(1) by simp
  have unfold: "callHook mp hook (Some K) eb None (log_event (E ! k) s)
      = (case (res, s1) of
           (Inl err, t1) \<Rightarrow> onError (f0 + k) (Some K) None err t1
         | (Inr res, t1) \<Rightarrow>
             (if eb then
                (if typeof_boolean res then
                   (if truthy res then next_fn (f0 + k) (Some K) JUndefined t1 else abort_fn None t1)
                 else if isPromise res then (None, subscribe (f0 + k) ThenBoolean t1)
                 else (None, t1))
              else if isPromise res then (None, subscribe (f0 + k) ThenNext t1)
              else (None, t1)))"
    using c rh by (simp add: callHook_def alloc_def)
  have final: "\<And>err. call_order_inv f0 base E N (snd (onError (f0 + k) (Some K) None err s1))
       \<and> fresh s1 \<le> fresh (snd (onError (f0 + k) (Some K) None err s1))"
    by (rule onError_inv [OF s1(1) ex1 kN K])
  have nxt: "call_order_inv f0 base E N (snd (next_fn (f0 + k) (Some K) JUndefined s1))
       \<and> fresh s1 \<le> fresh (snd (next_fn (f0 + k) (Some K) JUndefined s1))"
    by (rule next_fn_inv [OF s1(1) ex1 kN K])
  show ?thesis
  proof (cases res)
    case (Inl err)
    with unfold final [of err] le show ?thesis by simp
  next
    case (Inr v)
    with unfold nxt le s1(1) show ?thesis
      by (simp add: abort_fn_def inv_abort abort_quiet inv_subscribe subscribe_quiet)
  qed
qed

lemma step_runs:
  fixes q :: "'a list" and ev :: "'a \<Rightarrow> ('v, 'h) event" and hk :: "'a \<Rightarrow> hook"
    and cb :: "('v, 'h) comp"
  assumes cb: "runs f0 base E N (k0 + length q) cb"
    and match: "\<forall>j<length q. E ! (k0 + j) = ev (q ! j)"
    and evs: "\<forall>x. pipeline_event (ev x)"
    and bound: "k0 + length q \<le> N" and NE: "N \<le> length E"
    and fn: "fn = (\<lambda>x nxt t. callHook mp (hk x) (Some nxt) eb None (log_event (ev x) t))"
    and i: "i \<le> length q"
  shows "runs f0 base E N (k0 + i) (step q fn cb i)"
  using i
proof (induction "length q - i" arbitrary: i)
  case 0
  then have "i = length q" by simp
  with cb show ?case by (simp add: step_end)
next
  case (Suc n)
  then have lt: "i < length q" by simp
  from Suc have "n = length q - Suc i" "Suc i \<le> length q" by simp_all
  from Suc.hyps(1) [OF this]
  have next_runs: "\<forall>d::js_value. runs f0 base E N (Suc (k0 + i)) (step q fn cb (i + 1))"
    by simp
  have kN: "k0 + i < N" using lt bound by simp
  have ev: "pipeline_event (E ! (k0 + i))" using match lt evs by simp
  have eq: "step q fn cb i
      = (\<lambda>t. callHook mp (hk (q ! i)) (Some (\<lambda>d. step q fn cb (i + 1))) eb None
                (log_event (E ! (k0 + i)) t))"
    using lt match by (simp add: step_at fn)
  show ?case
    unfolding runs_def eq
  proof (intro allI impI)
    fix s assume "ready f0 base E (k0 + i) s"
    from callHook_inv [OF this kN NE ev next_runs]
    show "call_order_inv f0 base E N
            (snd (callHook mp (hk (q ! i)) (Some (\<lambda>d. step q fn cb (i + 1))) eb None
                    (log_event (E ! (k0 + i)) s)))
        \<and> fresh s \<le> fresh (snd (callHook mp (hk (q ! i)) (Some (\<lambda>d. step q fn cb (i + 1))) eb None
                    (log_event (E ! (k0 + i)) s)))" .
  qed
qed

lemma forEach_reuse:
  "forEach pipeline_reuse q s = (None, s\<lparr>trace := trace s @ map Reuse q\<rparr>)"
  by (induction q arbitrary: s) (simp_all add: pipeline_reuse_def log_event_def)

lemma activatePhase_spec:
  "activatePhase (spec_pipeline mp H cr) rq daq done_cb s
     = (None, s\<lparr>router := (router s)\<lparr>current := Some (to_route s)\<rparr>,
                trace := trace s @ commit_order rq daq\<rparr>)"
  by (cases rq)
     (simp_all add: activatePhase_def spec_pipeline_def router_updateRoute_def log_event_def
        forEach_reuse pipeline_activate_def done_cb_def commit_order_def last_conv_nth Let_def)

lemma commit_order_events: "filter pipeline_event (commit_order rq daq) = commit_order rq daq"
  by (cases rq) (simp_all add: commit_order_def filter_map comp_def)

lemma activatePhase_runs:
  assumes E: "E = hook_order daq aq @ commit_order rq daq" and N: "N = length (hook_order daq aq)"
  shows "runs f0 base E N N (activatePhase (spec_pipeline mp H cr) rq daq done_cb)"
  unfolding runs_def
proof (intro allI impI)
  fix s :: "('a, 'b) transition"
  assume "ready f0 base E N s"
  then have r: "fresh s = f0 + N" "pipeline_calls s = base @ take N E"
      "\<forall>j<N. nextCalled s (f0 + j)"
    unfolding ready_def by simp_all
  let ?s' = "s\<lparr>router := (router s)\<lparr>current := Some (to_route s)\<rparr>,
                trace := trace s @ commit_order rq daq\<rparr>"
  have "pipeline_calls ?s' = base @ E"
    using r(2) E N by (simp add: pipeline_calls_def commit_order_events)
  moreover have "fresh ?s' = f0 + min (length E) N" using r(1) E N by simp
  moreover have "\<forall>j. j < N \<and> Suc j < length E \<longrightarrow> nextCalled ?s' (f0 + j)" using r(3) by simp
  ultimately have "call_order_inv f0 base E N ?s'"
    unfolding call_order_inv_def by blast
  then show "call_order_inv f0 base E N
               (snd (activatePhase (spec_pipeline mp H cr) rq daq done_cb s))
           \<and> fresh s \<le> fresh (snd (activatePhase (spec_pipeline mp H cr) rq daq done_cb s))"
    by (simp add: activatePhase_spec)
qed


lemma hook_order_nth:
  "j < length daq \<Longrightarrow> (hook_order daq aq @ rest) ! j = CanDeactivate (daq ! j)"
  "j < length aq \<Longrightarrow> (hook_order daq aq @ rest) ! (length daq + j) = CanActivate (aq ! j)"
  "j < length daq \<Longrightarrow>
     (hook_order daq aq @ rest) ! (length daq + length aq + j) = Deactivate (daq ! j)"
  by (simp_all add: hook_order_def nth_append)

lemma hook_order_length: "length (hook_order daq aq) = length daq + length aq + length daq"
  by (simp add: hook_order_def)

lemma spec_pipeline_fns:
  "canDeactivate (spec_pipeline mp H cr)
     = (\<lambda>x nxt t. callHook mp (canDeactivateHook H x) (Some nxt) True None
                    (log_event (CanDeactivate x) t))"
  "canActivate (spec_pipeline mp H cr)
     = (\<lambda>x nxt t. callHook mp (canActivateHook H x) (Some nxt) True None
                    (log_event (CanActivate x) t))"
  "deactivate (spec_pipeline mp H cr)
     = (\<lambda>x nxt t. callHook mp (deactivateHook H x) (Some nxt) False None
                    (log_event (Deactivate x) t))"
  by (simp_all add: spec_pipeline_def fun_eq_iff pipeline_canDeactivate_def
        pipeline_canActivate_def pipeline_deactivate_def)

lemma deactivate_steps_run:
  fixes daq :: "'v list" and aq :: "'h list"
  assumes "i \<le> length daq"
  shows "runs f0 base (expected_order rq daq aq) (length (hook_order daq aq))
           (length daq + length aq + i)
           (step daq (deactivate (spec_pipeline mp H cr))
              (activatePhase (spec_pipeline mp H cr) rq daq done_cb) i)"
proof (rule step_runs [where ev = Deactivate and hk = "deactivateHook H" and mp = mp
      and eb = False])
  show "runs f0 base (expected_order rq daq aq) (length (hook_order daq aq))
          (length daq + length aq + length daq)
          (activatePhase (spec_pipeline mp H cr) rq daq done_cb)"
    using activatePhase_runs [where E = "expected_order rq daq aq" and daq = daq and aq = aq
        and rq = rq and N = "length (hook_order daq aq)"]
    by (simp add: expected_order_def hook_order_length)
  show "\<forall>j<length daq. expected_order rq daq aq ! (length daq + length aq + j)
          = Deactivate (daq ! j)"
    by (simp add: expected_order_def hook_order_nth)
  show "\<forall>x. pipeline_event (Deactivate x :: ('v, 'h) event)" by simp
  show "length daq + length aq + length daq \<le> length (hook_order daq aq)"
    by (simp add: hook_order_length)
  show "length (hook_order daq aq) \<le> length (expected_order rq daq aq)"
    by (simp add: expected_order_def)
  show "deactivate (spec_pipeline mp H cr)
     = (\<lambda>x nxt t. callHook mp (deactivateHook H x) (Some nxt) False None
                    (log_event (Deactivate x) t))"
    by (rule spec_pipeline_fns)
  show "i \<le> length daq" by (rule assms)
qed

lemma canActivate_steps_run:
  fixes daq :: "'v list" and aq :: "'h list"
  assumes "i \<le> length aq"
  shows "runs f0 base (expected_order rq daq aq) (length (hook_order daq aq))
           (length daq + i)
           (step aq (canActivate (spec_pipeline mp H cr))
              (deactivatePhase (spec_pipeline mp H cr) rq daq done_cb) i)"
proof (rule step_runs [where ev = CanActivate and hk = "canActivateHook H" and mp = mp
      and eb = True])
  show "runs f0 base (expected_order rq daq aq) (length (hook_order daq aq))
          (length daq + length aq)
          (deactivatePhase (spec_pipeline mp H cr) rq daq done_cb)"
    using deactivate_steps_run [where i = 0 and daq = daq]
    by (simp add: deactivatePhase_def runQueue_def)
  show "\<forall>j<length aq. expected_order rq daq aq ! (length daq + j) = CanActivate (aq ! j)"
    by (simp add: expected_order_def hook_order_nth)
  show "\<forall>x. pipeline_event (CanActivate x :: ('v, 'h) event)" by simp
  show "length daq + length aq \<le> length (hook_order daq aq)"
    by (simp add: hook_order_length)
  show "length (hook_order daq aq) \<le> length (expected_order rq daq aq)"
    by (simp add: expected_order_def)
  show "canActivate (spec_pipeline mp H cr)
     = (\<lambda>x nxt t. callHook mp (canActivateHook H x) (Some nxt) True None
                    (log_event (CanActivate x) t))"
    by (rule spec_pipeline_fns)
  show "i \<le> length aq" by (rule assms)
qed

lemma canDeactivate_steps_run:
  fixes daq :: "'v list" and aq :: "'h list"
  assumes "i \<le> length daq"
  shows "runs f0 base (expected_order rq daq aq) (length (hook_order daq aq)) i
           (step daq (canDeactivate (spec_pipeline mp H cr))
              (canActivatePhase (spec_pipeline mp H cr) rq daq aq done_cb) i)"
proof -
  have "runs f0 base (expected_order rq daq aq) (length (hook_order daq aq)) (0 + i)
           (step daq (canDeactivate (spec_pipeline mp H cr))
              (canActivatePhase (spec_pipeline mp H cr) rq daq aq done_cb) i)"
  proof (rule step_runs [where ev = CanDeactivate and hk = "canDeactivateHook H" and mp = mp
        and eb = True])
    show "runs f0 base (expected_order rq daq aq) (length (hook_order daq aq))
            (0 + length daq)
            (canActivatePhase (spec_pipeline mp H cr) rq daq aq done_cb)"
      using canActivate_steps_run [where i = 0 and aq = aq and daq = daq]
      by (simp add: canActivatePhase_def runQueue_def)
    show "\<forall>j<length daq. expected_order rq daq aq ! (0 + j) = CanDeactivate (daq ! j)"
      by (simp add: expected_order_def hook_order_nth)
    show "\<forall>x. pipeline_event (CanDeactivate x :: ('v, 'h) event)" by simp
    show "0 + length daq \<le> length (hook_order daq aq)"
      by (simp add: hook_order_length)
    show "length (hook_order daq aq) \<le> length (expected_order rq daq aq)"
      by (simp add: expected_order_def)
    show "canDeactivate (spec_pipeline mp H cr)
       = (\<lambda>x nxt t. callHook mp (canDeactivateHook H x) (Some nxt) True None
                      (log_event (CanDeactivate x) t))"
      by (rule spec_pipeline_fns)
    show "i \<le> length daq" by (rule assms)
  qed
  then show ?thesis by simp
qed

lemma hook_closure_cb_runs:
  assumes "k < length (hook_order daq aq)"
  shows "\<forall>d. runs f0 base (expected_order rq daq aq) (length (hook_order daq aq)) (Suc k)
           (hook_closure_cb (spec_pipeline mp H cr) rq daq aq done_cb k d)"
proof (cases "k < length daq")
  case True
  with canDeactivate_steps_run [where i = "Suc k" and daq = daq]
  show ?thesis by (simp add: hook_closure_cb_def)
next
  case False
  show ?thesis
  proof (cases "k < length daq + length aq")
    case True
    with False canActivate_steps_run [where i = "Suc (k - length daq)" and daq = daq and aq = aq]
    show ?thesis by (simp add: hook_closure_cb_def)
  next
    case past: False
    with assms have "Suc (k - (length daq + length aq)) \<le> length daq"
      by (simp add: hook_order_length)
    from deactivate_steps_run [OF this, where aq = aq] past False
    show ?thesis by (simp add: hook_closure_cb_def)
  qed
qed

lemma start_inv:
  assumes "reusability_phase cr t0 = (rq, daq, aq, chk)"
  shows "call_order_inv (fresh t0) (pipeline_calls t0) (expected_order rq daq aq)
           (length (hook_order daq aq)) (snd (start (spec_pipeline mp H cr) done_cb t0))"
proof -
  have "ready (fresh t0) (pipeline_calls t0) (expected_order rq daq aq) 0 t0"
    by (simp add: ready_def)
  with canDeactivate_steps_run [where i = 0 and daq = daq]
  have "call_order_inv (fresh t0) (pipeline_calls t0) (expected_order rq daq aq)
          (length (hook_order daq aq))
          (snd (step daq (canDeactivate (spec_pipeline mp H cr))
                 (canActivatePhase (spec_pipeline mp H cr) rq daq aq done_cb) 0 t0))"
    unfolding runs_def by blast
  with assms show ?thesis by (simp add: start_def runQueue_def spec_pipeline_def)
qed

lemma deliver_inv:
  assumes inv: "call_order_inv f0 base (expected_order rq daq aq) (length (hook_order daq aq)) s"
  shows "call_order_inv f0 base (expected_order rq daq aq) (length (hook_order daq aq))
           (deliver mp (spec_pipeline mp H cr) rq daq aq done_cb f0 s ev)"
proof -
  let ?N = "length (hook_order daq aq)"
  let ?K = "hook_closure_cb (spec_pipeline mp H cr) rq daq aq done_cb"
  have op: "call_order_inv f0 base (expected_order rq daq aq) ?N
              (snd (exposed_call mp (f0 + k) (Some (?K k)) None call s))"
    and nx: "call_order_inv f0 base (expected_order rq daq aq) ?N
              (snd (next_fn (f0 + k) (Some (?K k)) d s))"
    and er: "call_order_inv f0 base (expected_order rq daq aq) ?N
              (snd (onError (f0 + k) (Some (?K k)) None err s))"
    if "k < ?N" "f0 + k < fresh s" for k call d err
    using exposed_call_inv [OF inv that(2) that(1) hook_closure_cb_runs [OF that(1)]]
      next_fn_inv [OF inv that(2) that(1) hook_closure_cb_runs [OF that(1)]]
      onError_inv [OF inv that(2) that(1) hook_closure_cb_runs [OF that(1)]]
    by simp_all
  show ?thesis
  proof (cases ev)
    case (HookCalls k call)
    with inv op show ?thesis by (simp add: deliver_def)
  next
    case (Fulfils k v)
    with inv nx show ?thesis
      by (auto simp add: deliver_def then_fulfilled_def abort_fn_def inv_abort
          split: option.splits then_kind.splits)
  next
    case (Rejects k err)
    with inv er show ?thesis
      by (auto simp add: deliver_def then_rejected_def split: option.splits)
  qed
qed

lemma run_inv:
  assumes "call_order_inv f0 base (expected_order rq daq aq) (length (hook_order daq aq)) s"
  shows "call_order_inv f0 base (expected_order rq daq aq) (length (hook_order daq aq))
           (foldl (deliver mp (spec_pipeline mp H cr) rq daq aq done_cb f0) s evs)"
  using assms by (induction evs arbitrary: s) (simp_all add: deliver_inv)


text \<open>
  Claim C7. Take any hooks, any \<^verbatim>\<open>canReuse\<close>, any state in which \<^verbatim>\<open>start\<close> is called and
  any sequence of later events. The pipeline calls made by the run are, in order, a
  prefix of \<open>expected_order\<close>: the \<^verbatim>\<open>canDeactivate\<close> calls in queue order, then the
  \<^verbatim>\<open>canActivate\<close> calls in queue order, then the \<^verbatim>\<open>deactivate\<close> calls in queue order,
  then the route update, the \<^verbatim>\<open>reuse\<close> calls, and the one \<^verbatim>\<open>activate\<close> call (or the
  completion callback). And whenever the call that follows the \<open>j\<close>-th hook call in
  that order has been made, the \<open>j\<close>-th hook's \<^verbatim>\<open>next\<close> has been called: an item is
  dispatched, and the route is updated, only after the advance of the item before.
\<close>

theorem pipeline_calls_in_order:
  assumes "reusability_phase cr t0 = (rq, daq, aq, chk)"
  shows "\<exists>p. pipeline_calls (run_transition mp H cr evs t0) = pipeline_calls t0 @ p
           \<and> prefix p (expected_order rq daq aq)
           \<and> (\<forall>j. j < length (hook_order daq aq) \<and> Suc j < length p \<longrightarrow>
                 nextCalled (run_transition mp H cr evs t0) (fresh t0 + j))"
  using run_inv [OF start_inv [OF assms, where mp = mp and H = H],
      where evs = evs and mp = mp and H = H and cr = cr]
  unfolding call_order_inv_def by (auto simp add: run_transition_def assms Let_def)


lemma phase_BA_AC:
  "reusability_phase same_component (example_transition ''BA'' ''AC'')
     = (Some ''A'', ''B'', ''C'',
        [(CHR ''A'', Some (CHR ''A'')), (CHR ''B'', Some (CHR ''C''))])"
  by (simp add: reusability_phase_def example_defs reusability.simps js_index_def)

lemma run_transition_phase:
  "reusability_phase cr t = (rq, daq, aq, chk) \<Longrightarrow>
   run_transition mp H cr evs t
     = foldl (deliver mp (spec_pipeline mp H cr) rq daq aq done_cb (fresh t))
         (snd (start (spec_pipeline mp H cr) done_cb t)) evs"
  by (simp add: run_transition_def Let_def)

lemma start_phase:
  "reusability_phase (canReuse P) t = (rq, daq, aq, chk) \<Longrightarrow>
   start P cb t = step daq (canDeactivate P) (canActivatePhase P rq daq aq cb) 0 t"
  by (simp add: start_def runQueue_def)

lemma canReuse_spec [simp]: "canReuse (spec_pipeline mp H cr) = cr"
  by (simp add: spec_pipeline_def)

lemmas pipeline_defs = runQueue_def step_at step_end
      spec_pipeline_def pipeline_canDeactivate_def pipeline_canActivate_def
      pipeline_deactivate_def pipeline_reuse_def pipeline_activate_def done_cb_def
      canActivatePhase_def deactivatePhase_def activatePhase_def router_updateRoute_def
      deliver_def hook_closure_cb_def then_fulfilled_def then_rejected_def hook_order_def
      reuse_depth_def pipeline_calls_def

lemma run_BA_AC:
  "pipeline_calls (run_transition example_mapParams example_hooks same_component
      [Fulfils 0 (JBool True)] (example_transition ''BA'' ''AC''))
     = [CanDeactivate (CHR ''B''), CanActivate (CHR ''C''), Deactivate (CHR ''B''),
        UpdateRoute, Reuse (CHR ''A''), Activate (CHR ''B'') 1, Done]"
  unfolding run_transition_phase [OF phase_BA_AC]
    start_phase [where P = "spec_pipeline example_mapParams example_hooks same_component",
      simplified, OF phase_BA_AC]
  by (simp add: pipeline_defs example_hooks_def run_defs example_defs)


theorem pipeline_calls_in_order_witness:
  "reusability_phase same_component (example_transition ''BA'' ''AC'')
     = (Some ''A'', ''B'', ''C'',
        [(CHR ''A'', Some (CHR ''A'')), (CHR ''B'', Some (CHR ''C''))])
   \<and> pipeline_calls (run_transition example_mapParams example_hooks same_component
        [Fulfils 0 (JBool True)] (example_transition ''BA'' ''AC''))
       = expected_order (Some ''A'') ''B'' ''C''
   \<and> (0::nat) < length (hook_order ''B'' ''C'')
   \<and> Suc 0 < length (expected_order (Some ''A'') ''B'' ''C'')
   \<and> nextCalled (run_transition example_mapParams example_hooks same_component
        [Fulfils 0 (JBool True)] (example_transition ''BA'' ''AC''))
        (fresh (example_transition ''BA'' ''AC'') + 0)"
proof -
  have calls: "pipeline_calls (run_transition example_mapParams example_hooks same_component
        [Fulfils 0 (JBool True)] (example_transition ''BA'' ''AC''))
       = expected_order (Some ''A'') ''B'' ''C''"
    by (simp add: run_BA_AC expected_order_def hook_order_def commit_order_def reuse_depth_def)
  have sizes: "(0::nat) < length (hook_order ''B'' ''C'')
      \<and> Suc 0 < length (expected_order (Some ''A'') ''B'' ''C'')"
    by (simp add: expected_order_def hook_order_def)
  have base: "pipeline_calls (example_transition ''BA'' ''AC'') = []"
    by (simp add: pipeline_calls_def example_defs)
  from pipeline_calls_in_order [OF phase_BA_AC, where mp = example_mapParams
      and H = example_hooks and evs = "[Fulfils 0 (JBool True)]"]
  obtain p where p: "pipeline_calls (run_transition example_mapParams example_hooks same_component
        [Fulfils 0 (JBool True)] (example_transition ''BA'' ''AC''))
          = pipeline_calls (example_transition ''BA'' ''AC'') @ p"
     "\<forall>j. j < length (hook_order ''B'' ''C'') \<and> Suc j < length p \<longrightarrow>
         nextCalled (run_transition example_mapParams example_hooks same_component
            [Fulfils 0 (JBool True)] (example_transition ''BA'' ''AC''))
           (fresh (example_transition ''BA'' ''AC'') + j)"
    by blast
  from p(1) calls base have "p = expected_order (Some ''A'') ''B'' ''C''" by simp
  with p(2) sizes have "nextCalled (run_transition example_mapParams example_hooks same_component
        [Fulfils 0 (JBool True)] (example_transition ''BA'' ''AC''))
        (fresh (example_transition ''BA'' ''AC'') + 0)"
    by blast
  with phase_BA_AC calls sizes show ?thesis by blast
qed







section \<open>The closure variables stay with their closures\<close>

lemma keeps_cellsI:
  assumes "\<And>s. fresh s \<le> fresh (snd (C s))"
    and "\<And>s c. c < fresh s \<Longrightarrow> nextCalled s c \<Longrightarrow> nextCalled (snd (C s)) c"
  shows "keeps_cells C"
  using assms unfolding keeps_cells_def by blast

lemma keeps_cellsD:
  assumes "keeps_cells C"
  shows "fresh s \<le> fresh (snd (C s))"
    and "c < fresh s \<Longrightarrow> nextCalled s c \<Longrightarrow> nextCalled (snd (C s)) c"
  using assms unfolding keeps_cells_def by blast+

lemma keeps_cells_seq:
  assumes "keeps_cells C" and "\<And>s. keeps_cells (D s)"
  shows "keeps_cells (\<lambda>s. D s (snd (C s)))"
proof (rule keeps_cellsI)
  fix s :: "('a, 'b) transition"
  show "fresh s \<le> fresh (snd (D s (snd (C s))))"
    using keeps_cellsD(1) [OF assms(1), where s = s]
      keeps_cellsD(1) [OF assms(2), where s = "snd (C s)"]
    by (metis le_trans)
  fix c assume c: "c < fresh s" "nextCalled s c"
  from keeps_cellsD(2) [OF assms(1) c] keeps_cellsD(1) [OF assms(1), where s = s] c(1)
  have "c < fresh (snd (C s))" "nextCalled (snd (C s)) c" by simp_all
  from keeps_cellsD(2) [OF assms(2) this] show "nextCalled (snd (D s (snd (C s)))) c" .
qed

lemma keeps_cells_next_fn:
  assumes "\<forall>k d. cb = Some k \<longrightarrow> keeps_cells (k d)"
  shows "keeps_cells (next_fn c cb d)"
proof (rule keeps_cellsI)
  fix s :: "('a, 'b) transition"
  let ?s1 = "s\<lparr>nextCalled := (nextCalled s)(c := True)\<rparr>"
  have k1: "fresh s \<le> fresh (snd (k d ?s1))"
    and k2: "\<And>c'. c' < fresh s \<Longrightarrow> nextCalled s c' \<Longrightarrow> nextCalled (snd (k d ?s1)) c'"
    if "cb = Some k" for k
    using keeps_cellsD [OF assms [rule_format, OF that], where s = ?s1] by simp_all
  show "fresh s \<le> fresh (snd (next_fn c cb d s))"
    using k1 by (auto simp add: next_fn_def warn_def log_event_def Let_def split: option.splits)
  fix c' assume "c' < fresh s" "nextCalled s c'"
  then show "nextCalled (snd (next_fn c cb d s)) c'"
    using k2 by (auto simp add: next_fn_def warn_def log_event_def Let_def split: option.splits)
qed

lemma keeps_cells_abort_fn: "keeps_cells (abort_fn None)"
  by (rule keeps_cellsI)
     (simp_all add: abort_fn_def abort_def router_replace_def log_event_def)

lemma keeps_cells_exposed_call:
  assumes "\<forall>k d. cb = Some k \<longrightarrow> keeps_cells (k d)"
  shows "keeps_cells (exposed_call mp c cb None call)"
proof (cases call)
  case (CallNext d)
  have "exposed_call mp c cb None (CallNext d) = next_fn c cb d"
    by (simp add: exposed_call_def fun_eq_iff)
  with CallNext keeps_cells_next_fn [OF assms] show ?thesis by simp
next
  case CallAbort
  have "exposed_call mp c cb None CallAbort = abort_fn None"
    by (simp add: exposed_call_def fun_eq_iff)
  with CallAbort keeps_cells_abort_fn show ?thesis by simp
next
  case (CallRedirect p)
  then show ?thesis
    by (intro keeps_cellsI)
       (simp_all add: exposed_call_def redirect_def router_replace_def log_event_def)
qed

lemma keeps_cells_onError:
  assumes "\<forall>k d. cb = Some k \<longrightarrow> keeps_cells (k d)"
  shows "keeps_cells (onError c cb None err)"
  by (rule keeps_cellsI)
     (simp_all add: onError_def next_or_abort_def abort_fn_def abort_def router_replace_def
        warn_def log_event_def)

lemma keeps_cells_run_hook:
  assumes "\<forall>k d. cb = Some k \<longrightarrow> keeps_cells (k d)"
  shows "fresh s \<le> fresh (snd (run_hook mp c cb None hook s))
       \<and> (\<forall>c'<fresh s. nextCalled s c' \<longrightarrow> nextCalled (snd (run_hook mp c cb None hook s)) c')"
proof (induction hook arbitrary: s)
  case (Returns v)
  show ?case by simp
next
  case (Throws e)
  show ?case by simp
next
  case (Calls x rest catch)
  obtain e s1 where one: "exposed_call mp c cb None x s = (e, s1)"
    by (cases "exposed_call mp c cb None x s")
  from keeps_cellsD [OF keeps_cells_exposed_call [OF assms, where mp = mp and c = c and call = x],
      where s = s] one
  have s1: "fresh s \<le> fresh s1" "\<And>c'. c' < fresh s \<Longrightarrow> nextCalled s c' \<Longrightarrow> nextCalled s1 c'"
    by simp_all
  obtain h where h: "run_hook mp c cb None (Calls x rest catch) s = run_hook mp c cb None h s1"
    and ih: "fresh s1 \<le> fresh (snd (run_hook mp c cb None h s1))"
      "\<forall>c'<fresh s1. nextCalled s1 c' \<longrightarrow> nextCalled (snd (run_hook mp c cb None h s1)) c'"
  proof (cases e)
    case None
    with one have "run_hook mp c cb None (Calls x rest catch) s = run_hook mp c cb None rest s1"
      by simp
    with Calls.IH(1) [of s1] that show ?thesis by blast
  next
    case (Some exn)
    with one have eq: "run_hook mp c cb None (Calls x rest catch) s
        = run_hook mp c cb None (catch exn) s1"
      by simp
    have "catch exn \<in> range catch" by simp
    from Calls.IH(2) [OF this, of s1] eq that show ?thesis by blast
  qed
  show ?case
    unfolding h
  proof (intro conjI allI impI)
    from s1(1) ih(1) show "fresh s \<le> fresh (snd (run_hook mp c cb None h s1))"
      by (rule le_trans)
    fix c' assume c': "c' < fresh s" "nextCalled s c'"
    from c'(1) s1(1) have "c' < fresh s1" by (rule less_le_trans)
    moreover from s1(2) [OF c'] have "nextCalled s1 c'" .
    ultimately show "nextCalled (snd (run_hook mp c cb None h s1)) c'" using ih(2) by blast
  qed
qed

lemma keeps_cells_callHook:
  assumes "\<forall>k d. cb = Some k \<longrightarrow> keeps_cells (k d)"
  shows "keeps_cells (callHook mp hook cb eb None)"
proof (rule keeps_cellsI)
  fix s :: "('a, 'b) transition"
  let ?s0 = "snd (alloc s)"
  obtain res s1 where rh: "run_hook mp (fresh s) cb None hook ?s0 = (res, s1)"
    by (cases "run_hook mp (fresh s) cb None hook ?s0")
  from keeps_cells_run_hook [OF assms, where s = ?s0 and mp = mp and c = "fresh s" and hook = hook]
    rh
  have s1: "Suc (fresh s) \<le> fresh s1"
    "\<forall>c<Suc (fresh s). nextCalled ?s0 c \<longrightarrow> nextCalled s1 c"
    by (simp_all add: alloc_def)
  have le1: "fresh s \<le> fresh s1" using s1(1) by simp
  have kept1: "nextCalled s1 c" if "c < fresh s" "nextCalled s c" for c
  proof -
    from that have "nextCalled ?s0 c" by (simp add: alloc_def)
    moreover from that(1) have "c < Suc (fresh s)" by simp
    ultimately show ?thesis using s1(2) by blast
  qed
  define T where "T = (\<lambda>t. case res of
       Inl err \<Rightarrow> onError (fresh s) cb None err t
     | Inr v \<Rightarrow>
         (if eb then
            (if typeof_boolean v then
               (if truthy v then next_fn (fresh s) cb JUndefined t else abort_fn None t)
             else if isPromise v then (None, subscribe (fresh s) ThenBoolean t)
             else (None, t))
          else if isPromise v then (None, subscribe (fresh s) ThenNext t)
          else (None, t)))"
  have eq: "callHook mp hook cb eb None s = T s1"
    using rh by (simp add: callHook_def alloc_def T_def)
  have quiet: "keeps_cells (\<lambda>t::('a, 'b) transition. (None, t))"
    "\<And>c k. keeps_cells (\<lambda>t::('a, 'b) transition. (None, subscribe c k t))"
    by (rule keeps_cellsI, simp_all add: subscribe_def)+
  have T: "keeps_cells T"
  proof (cases res)
    case (Inl err)
    then have "T = onError (fresh s) cb None err" by (simp add: T_def)
    with keeps_cells_onError [OF assms] show ?thesis by simp
  next
    case (Inr v)
    show ?thesis
    proof (cases eb)
      case True
      show ?thesis
      proof (cases "typeof_boolean v")
        case tb: True
        show ?thesis
        proof (cases "truthy v")
          case True
          with Inr \<open>eb\<close> tb have "T = next_fn (fresh s) cb JUndefined" by (simp add: T_def)
          with keeps_cells_next_fn [OF assms] show ?thesis by simp
        next
          case False
          with Inr \<open>eb\<close> tb have "T = abort_fn None" by (simp add: T_def)
          with keeps_cells_abort_fn show ?thesis by simp
        qed
      next
        case ntb: False
        show ?thesis
        proof (cases "isPromise v")
          case True
          with Inr \<open>eb\<close> ntb have "T = (\<lambda>t. (None, subscribe (fresh s) ThenBoolean t))"
            by (simp add: T_def)
          with quiet(2) show ?thesis by simp
        next
          case False
          with Inr \<open>eb\<close> ntb have "T = (\<lambda>t. (None, t))" by (simp add: T_def)
          with quiet(1) show ?thesis by simp
        qed
      qed
    next
      case neb: False
      show ?thesis
      proof (cases "isPromise v")
        case True
        with Inr neb have "T = (\<lambda>t. (None, subscribe (fresh s) ThenNext t))"
          by (simp add: T_def)
        with quiet(2) show ?thesis by simp
      next
        case False
        with Inr neb have "T = (\<lambda>t. (None, t))" by (simp add: T_def)
        with quiet(1) show ?thesis by simp
      qed
    qed
  qed
  from keeps_cellsD(1) [OF T, where s = s1] le1
  show "fresh s \<le> fresh (snd (callHook mp hook cb eb None s))"
    unfolding eq by (rule le_trans [rotated])
  fix c assume c: "c < fresh s" "nextCalled s c"
  from c(1) le1 have "c < fresh s1" by (rule less_le_trans)
  from keeps_cellsD(2) [OF T this kept1 [OF c]]
  show "nextCalled (snd (callHook mp hook cb eb None s)) c" unfolding eq .
qed


lemma keeps_cells_logged:
  assumes "keeps_cells C"
  shows "keeps_cells (\<lambda>t. C (log_event e t))"
proof (rule keeps_cellsI)
  fix s :: "('a, 'b) transition"
  from keeps_cellsD(1) [OF assms, where s = "log_event e s"]
  show "fresh s \<le> fresh (snd (C (log_event e s)))" by (simp add: log_event_def)
  fix c assume "c < fresh s" "nextCalled s c"
  then have "c < fresh (log_event e s)" "nextCalled (log_event e s) c"
    by (simp_all add: log_event_def)
  from keeps_cellsD(2) [OF assms this] show "nextCalled (snd (C (log_event e s))) c" .
qed

lemma keeps_cells_step:
  fixes q :: "'a list" and ev :: "'a \<Rightarrow> ('v, 'h) event" and cb :: "('v, 'h) comp"
  assumes cb: "keeps_cells cb"
    and fn: "fn = (\<lambda>x nxt t. callHook mp (hk x) (Some nxt) eb None (log_event (ev x) t))"
  shows "keeps_cells (step q fn cb i)"
proof (induction "length q - i" arbitrary: i)
  case 0
  then have "step q fn cb i = cb" by (simp add: step_end)
  with cb show ?case by simp
next
  case (Suc n)
  then have lt: "i < length q" by simp
  from Suc have "n = length q - (i + 1)" by simp
  from Suc.hyps(1) [OF this]
  have "\<forall>k d. Some (\<lambda>d::js_value. step q fn cb (i + 1)) = Some k \<longrightarrow> keeps_cells (k d)"
    by auto
  from keeps_cells_logged [OF keeps_cells_callHook [OF this]]
  have "keeps_cells (\<lambda>t. callHook mp (hk (q ! i)) (Some (\<lambda>d. step q fn cb (i + 1))) eb None
                           (log_event (ev (q ! i)) t))" .
  moreover from lt have "step q fn cb i
      = (\<lambda>t. callHook mp (hk (q ! i)) (Some (\<lambda>d. step q fn cb (i + 1))) eb None
                (log_event (ev (q ! i)) t))"
    by (simp add: step_at fn)
  ultimately show ?case by simp
qed

lemma keeps_cells_activatePhase:
  "keeps_cells (activatePhase (spec_pipeline mp H cr) rq daq done_cb)"
  by (rule keeps_cellsI) (simp_all add: activatePhase_spec)

lemma keeps_cells_hook_closure_cb:
  "keeps_cells (hook_closure_cb (spec_pipeline mp H cr) rq daq aq done_cb k d)"
proof -
  let ?P = "spec_pipeline mp H cr"
  have de: "keeps_cells (step daq (deactivate ?P) (activatePhase ?P rq daq done_cb) i)" for i
    by (rule keeps_cells_step [OF keeps_cells_activatePhase spec_pipeline_fns(3)])
  then have "keeps_cells (deactivatePhase ?P rq daq done_cb)"
    by (simp add: deactivatePhase_def runQueue_def)
  then have ca: "keeps_cells (step aq (canActivate ?P) (deactivatePhase ?P rq daq done_cb) i)" for i
    by (rule keeps_cells_step [OF _ spec_pipeline_fns(2)])
  then have "keeps_cells (canActivatePhase ?P rq daq aq done_cb)"
    by (simp add: canActivatePhase_def runQueue_def)
  then have cd: "keeps_cells (step daq (canDeactivate ?P) (canActivatePhase ?P rq daq aq done_cb) i)"
    for i
    by (rule keeps_cells_step [OF _ spec_pipeline_fns(1)])
  from de ca cd show ?thesis by (simp add: hook_closure_cb_def)
qed

text \<open>
  Claim C6. Take a \<^verbatim>\<open>callHook\<close> invocation (its cell \<open>c\<close> is allocated) and a
  continuation that cannot write the \<^verbatim>\<open>nextCalled\<close> variables of the invocations made so
  far. After a first call of \<^verbatim>\<open>next\<close> the variable is set, whatever the continuation
  did (also when it threw); every later call returns normally and changes nothing but
  the trace, which gains the warning.
\<close>

theorem next_effective_only_once:
  assumes first: "next_fn c cb d1 t = (e1, t1)"
    and cell: "c < fresh t"
    and keeps: "\<forall>k d. cb = Some k \<longrightarrow> keeps_cells (k d)"
  shows "nextCalled t1 c
     \<and> next_fn c cb d2 t1
         = (None, t1\<lparr>trace := trace t1 @ [Warn ''transition.next() should be called only once.'']\<rparr>)"
proof -
  have "nextCalled t1 c"
  proof (cases "nextCalled t c")
    case True
    with first show ?thesis by (auto simp add: next_fn_spent)
  next
    case False
    let ?t = "t\<lparr>nextCalled := (nextCalled t)(c := True)\<rparr>"
    have set: "nextCalled ?t c" "c < fresh ?t" using cell by simp_all
    show ?thesis
    proof (cases cb)
      case None
      with False first show ?thesis by (auto simp add: next_fn_def Let_def)
    next
      case (Some k)
      show ?thesis
      proof (cases "aborted t")
        case True
        with False first show ?thesis by (auto simp add: next_fn_aborted)
      next
        case na: False
        with False Some first have run: "k d1 ?t = (e1, t1)" by (simp add: next_fn_fresh)
        from keeps Some have "keeps_cells (k d1)" by simp
        from keeps_cellsD(2) [OF this set(2) set(1)] run show ?thesis by simp
      qed
    qed
  qed
  then show ?thesis by (simp add: next_fn_spent)
qed


lemma example_stalled_eval:
  "fresh example_stalled = 1 \<and> \<not> nextCalled example_stalled 0 \<and> \<not> aborted example_stalled
   \<and> trace example_stalled = [CanDeactivate (CHR ''B'')]"
  unfolding example_stalled_def
    start_phase [where P = "spec_pipeline example_mapParams example_hooks same_component",
      simplified, OF phase_BA_AC]
  by (simp add: pipeline_defs example_hooks_def run_defs example_defs)

lemma example_next_eval:
  "pipeline_calls (snd (next_fn 0 (Some example_next) JUndefined example_stalled))
     = expected_order (Some ''A'') ''B'' ''C''"
  unfolding example_stalled_def example_next_def
    start_phase [where P = "spec_pipeline example_mapParams example_hooks same_component",
      simplified, OF phase_BA_AC]
  by (simp add: pipeline_defs example_hooks_def run_defs example_defs expected_order_def
      commit_order_def)

theorem next_effective_only_once_witness:
  "0 < fresh example_stalled
   \<and> pipeline_calls example_stalled = [CanDeactivate (CHR ''B'')]
   \<and> pipeline_calls (snd (next_fn 0 (Some example_next) JUndefined example_stalled))
       = expected_order (Some ''A'') ''B'' ''C''
   \<and> next_fn 0 (Some example_next) (JNum 2)
        (snd (next_fn 0 (Some example_next) JUndefined example_stalled))
       = (None, (snd (next_fn 0 (Some example_next) JUndefined example_stalled))
                  \<lparr>trace := trace (snd (next_fn 0 (Some example_next) JUndefined example_stalled))
                             @ [Warn ''transition.next() should be called only once.'']\<rparr>)"
proof -
  let ?r = "next_fn 0 (Some example_next) JUndefined example_stalled"
  have first: "?r = (fst ?r, snd ?r)" by simp
  have cell: "0 < fresh example_stalled" by (simp add: example_stalled_eval)
  have keeps: "\<forall>k d. Some example_next = Some k \<longrightarrow> keeps_cells (k d)"
    by (simp add: example_next_def keeps_cells_hook_closure_cb)
  have calls: "pipeline_calls example_stalled = [CanDeactivate (CHR ''B'')]"
    by (simp add: pipeline_calls_def example_stalled_eval)
  from next_effective_only_once [OF first cell keeps, where ?d2.0 = "JNum 2"]
    cell calls example_next_eval
  show ?thesis by blast
qed

section \<open>The aborted flag\<close>

lemma abort_inv_quiet:
  assumes "abort_inv s" and "trace s' = trace s" and "aborted s' = aborted s"
  shows "abort_inv s'"
  using assms by (simp add: abort_inv_def)

lemma abort_inv_log:
  assumes "abort_inv s" and "\<not> is_replace ev" and "aborted s \<longrightarrow> \<not> pipeline_event ev"
  shows "abort_inv (log_event ev s)"
proof (cases "aborted s")
  case False
  with assms show ?thesis by (simp add: abort_inv_def log_event_def)
next
  case True
  with assms(1) have one: "length (filter is_replace (trace s)) = 1"
    and none: "filter pipeline_event (dropWhile (\<lambda>ev. \<not> is_replace ev) (trace s)) = []"
    by (simp_all add: abort_inv_def)
  from one have "\<exists>x\<in>set (trace s). is_replace x"
    by (metis filter_False length_0_conv zero_neq_one)
  then have "dropWhile (\<lambda>ev. \<not> is_replace ev) (trace s @ [ev])
      = dropWhile (\<lambda>ev. \<not> is_replace ev) (trace s) @ [ev]"
    by (auto simp add: dropWhile_append)
  with True one none assms(2,3) show ?thesis
    by (simp add: abort_inv_def log_event_def)
qed

lemma abort_inv_warn: "abort_inv s \<Longrightarrow> abort_inv (warn m s)"
  unfolding warn_def by (rule abort_inv_log) simp_all

lemma abort_inv_replace:
  assumes "abort_inv s" and "\<not> aborted s"
  shows "abort_inv (router_replace p (s\<lparr>aborted := True\<rparr>))"
proof -
  from assms have no: "filter is_replace (trace s) = []" by (simp add: abort_inv_def)
  then have "\<forall>x\<in>set (trace s). \<not> is_replace x" by (simp add: filter_empty_conv)
  then have "dropWhile (\<lambda>ev. \<not> is_replace ev) (trace s @ [Replace p]) = [Replace p]"
    by (simp add: dropWhile_append)
  with no show ?thesis by (simp add: abort_inv_def router_replace_def log_event_def)
qed

lemma abort_inv_abort: "abort_inv s \<Longrightarrow> abort_inv (abort s)"
  by (simp add: abort_def abort_inv_replace)

lemma abort_inv_redirect: "abort_inv s \<Longrightarrow> abort_inv (redirect mp p s)"
  by (simp add: redirect_def abort_inv_replace)

lemma abort_inv_next_fn:
  assumes "abort_inv s" and "\<forall>k d. cb = Some k \<longrightarrow> keeps_abort_inv (k d)"
  shows "abort_inv (snd (next_fn c cb d s))"
proof (cases "nextCalled s c")
  case True
  with assms(1) show ?thesis by (simp add: next_fn_def abort_inv_warn)
next
  case False
  let ?s1 = "s\<lparr>nextCalled := (nextCalled s)(c := True)\<rparr>"
  have s1: "abort_inv ?s1" by (rule abort_inv_quiet [OF assms(1)]) simp_all
  show ?thesis
  proof (cases cb)
    case None
    with False s1 show ?thesis by (simp add: next_fn_def Let_def)
  next
    case (Some k)
    show ?thesis
    proof (cases "aborted s")
      case True
      with False Some s1 show ?thesis by (simp add: next_fn_def Let_def)
    next
      case na: False
      from assms(2) Some have "keeps_abort_inv (k d)" by simp
      with s1 na have "abort_inv (snd (k d ?s1))" unfolding keeps_abort_inv_def by simp
      with False Some na show ?thesis by (simp add: next_fn_def Let_def)
    qed
  qed
qed

lemma abort_inv_exposed_call:
  assumes "abort_inv s" and "\<forall>k d. cb = Some k \<longrightarrow> keeps_abort_inv (k d)"
  shows "abort_inv (snd (exposed_call mp c cb None call s))"
  using assms
  by (cases call)
     (simp_all add: exposed_call_def abort_inv_next_fn abort_fn_def abort_inv_abort
        abort_inv_redirect)

lemma abort_inv_run_hook:
  assumes "\<forall>k d. cb = Some k \<longrightarrow> keeps_abort_inv (k d)"
  shows "abort_inv s \<Longrightarrow> abort_inv (snd (run_hook mp c cb None hook s))"
proof (induction hook arbitrary: s)
  case (Returns v)
  then show ?case by simp
next
  case (Throws e)
  then show ?case by simp
next
  case (Calls x rest catch)
  obtain e s1 where one: "exposed_call mp c cb None x s = (e, s1)"
    by (cases "exposed_call mp c cb None x s")
  from abort_inv_exposed_call [OF Calls.prems assms, where mp = mp and c = c and call = x] one
  have s1: "abort_inv s1" by simp
  show ?case
  proof (cases e)
    case None
    with one Calls.IH(1) [OF s1] show ?thesis by simp
  next
    case (Some exn)
    have "catch exn \<in> range catch" by simp
    from Calls.IH(2) [OF this s1] Some one show ?thesis by simp
  qed
qed

lemma abort_inv_onError:
  assumes "abort_inv s" and "\<forall>k d. cb = Some k \<longrightarrow> keeps_abort_inv (k d)"
  shows "abort_inv (snd (onError c cb None err s))"
  using assms(1)
  by (simp add: onError_def next_or_abort_def abort_fn_def abort_inv_abort abort_inv_warn)

lemma abort_inv_callHook:
  assumes "abort_inv s" and "\<forall>k d. cb = Some k \<longrightarrow> keeps_abort_inv (k d)"
  shows "abort_inv (snd (callHook mp hook cb eb None s))"
proof -
  let ?s0 = "snd (alloc s)"
  have s0: "abort_inv ?s0" by (rule abort_inv_quiet [OF assms(1)]) (simp_all add: alloc_def)
  obtain res s1 where rh: "run_hook mp (fresh s) cb None hook ?s0 = (res, s1)"
    by (cases "run_hook mp (fresh s) cb None hook ?s0")
  from abort_inv_run_hook [OF assms(2) s0, where mp = mp and c = "fresh s" and hook = hook] rh
  have s1: "abort_inv s1" by simp
  have sub: "abort_inv (subscribe c k s1)" for c k
    by (rule abort_inv_quiet [OF s1]) (simp_all add: subscribe_def)
  show ?thesis
  proof (cases res)
    case (Inl err)
    with rh abort_inv_onError [OF s1 assms(2)] show ?thesis
      by (simp add: callHook_def alloc_def)
  next
    case (Inr v)
    with rh s1 sub abort_inv_next_fn [OF s1 assms(2)] show ?thesis
      by (simp add: callHook_def alloc_def abort_fn_def abort_inv_abort)
  qed
qed

lemma keeps_abort_inv_step:
  fixes q :: "'a list" and ev :: "'a \<Rightarrow> ('v, 'h) event" and cb :: "('v, 'h) comp"
  assumes cb: "keeps_abort_inv cb"
    and fn: "fn = (\<lambda>x nxt t. callHook mp (hk x) (Some nxt) eb None (log_event (ev x) t))"
    and evs: "\<forall>x. \<not> is_replace (ev x)"
  shows "keeps_abort_inv (step q fn cb i)"
proof (induction "length q - i" arbitrary: i)
  case 0
  then have "step q fn cb i = cb" by (simp add: step_end)
  with cb show ?case by simp
next
  case (Suc n)
  then have lt: "i < length q" by simp
  from Suc have "n = length q - (i + 1)" by simp
  from Suc.hyps(1) [OF this]
  have K: "\<forall>k d. Some (\<lambda>d::js_value. step q fn cb (i + 1)) = Some k \<longrightarrow> keeps_abort_inv (k d)"
    by auto
  from lt have eq: "step q fn cb i
      = (\<lambda>t. callHook mp (hk (q ! i)) (Some (\<lambda>d. step q fn cb (i + 1))) eb None
                (log_event (ev (q ! i)) t))"
    by (simp add: step_at fn)
  show ?case
    unfolding keeps_abort_inv_def eq
  proof (intro allI impI)
    fix s :: "('v, 'h) transition"
    assume s: "abort_inv s \<and> \<not> aborted s"
    with evs have "abort_inv (log_event (ev (q ! i)) s)" by (simp add: abort_inv_log)
    from abort_inv_callHook [OF this K]
    show "abort_inv (snd (callHook mp (hk (q ! i)) (Some (\<lambda>d. step q fn cb (i + 1))) eb None
                            (log_event (ev (q ! i)) s)))" .
  qed
qed

lemma keeps_abort_inv_activatePhase:
  "keeps_abort_inv (activatePhase (spec_pipeline mp H cr) rq daq done_cb)"
  unfolding keeps_abort_inv_def
proof (intro allI impI)
  fix s :: "('a, 'b) transition"
  assume "abort_inv s \<and> \<not> aborted s"
  then have "filter is_replace (trace s) = []" "\<not> aborted s" by (simp_all add: abort_inv_def)
  moreover have "filter is_replace (commit_order rq daq :: ('a, 'b) event list) = []"
    by (cases rq) (simp_all add: commit_order_def filter_empty_conv image_iff)
  ultimately show "abort_inv (snd (activatePhase (spec_pipeline mp H cr) rq daq done_cb s))"
    by (simp add: activatePhase_spec abort_inv_def)
qed

lemma keeps_abort_inv_phases:
  "keeps_abort_inv (step daq (deactivate (spec_pipeline mp H cr))
                      (activatePhase (spec_pipeline mp H cr) rq daq done_cb) i)"
  "keeps_abort_inv (step aq (canActivate (spec_pipeline mp H cr))
                      (deactivatePhase (spec_pipeline mp H cr) rq daq done_cb) j)"
  "keeps_abort_inv (step daq (canDeactivate (spec_pipeline mp H cr))
                      (canActivatePhase (spec_pipeline mp H cr) rq daq aq done_cb) k)"
proof -
  let ?P = "spec_pipeline mp H cr"
  have de: "keeps_abort_inv (step daq (deactivate ?P) (activatePhase ?P rq daq done_cb) i)" for i
    by (rule keeps_abort_inv_step [OF keeps_abort_inv_activatePhase spec_pipeline_fns(3)]) simp
  then have "keeps_abort_inv (deactivatePhase ?P rq daq done_cb)"
    by (simp add: deactivatePhase_def runQueue_def)
  then have ca: "keeps_abort_inv (step aq (canActivate ?P) (deactivatePhase ?P rq daq done_cb) i)"
    for i
    by (rule keeps_abort_inv_step [OF _ spec_pipeline_fns(2)]) simp
  then have "keeps_abort_inv (canActivatePhase ?P rq daq aq done_cb)"
    by (simp add: canActivatePhase_def runQueue_def)
  then have cd: "keeps_abort_inv (step daq (canDeactivate ?P)
                                    (canActivatePhase ?P rq daq aq done_cb) i)" for i
    by (rule keeps_abort_inv_step [OF _ spec_pipeline_fns(1)]) simp
  from de show "keeps_abort_inv (step daq (deactivate ?P) (activatePhase ?P rq daq done_cb) i)" .
  from ca show "keeps_abort_inv (step aq (canActivate ?P) (deactivatePhase ?P rq daq done_cb) j)" .
  from cd show "keeps_abort_inv (step daq (canDeactivate ?P)
                                   (canActivatePhase ?P rq daq aq done_cb) k)" .
qed

lemma keeps_abort_inv_hook_closure_cb:
  "keeps_abort_inv (hook_closure_cb (spec_pipeline mp H cr) rq daq aq done_cb k d)"
  by (simp add: hook_closure_cb_def keeps_abort_inv_phases)

lemma abort_inv_deliver:
  assumes "abort_inv s"
  shows "abort_inv (deliver mp (spec_pipeline mp H cr) rq daq aq done_cb f0 s ev)"
proof -
  let ?K = "hook_closure_cb (spec_pipeline mp H cr) rq daq aq done_cb"
  have K: "\<forall>k' d. Some (?K k) = Some k' \<longrightarrow> keeps_abort_inv (k' d)" for k
    by (simp add: keeps_abort_inv_hook_closure_cb)
  show ?thesis
  proof (cases ev)
    case (HookCalls k call)
    with assms abort_inv_exposed_call [OF assms K] show ?thesis by (simp add: deliver_def)
  next
    case (Fulfils k v)
    with assms abort_inv_next_fn [OF assms K] show ?thesis
      by (simp add: deliver_def then_fulfilled_def abort_fn_def abort_inv_abort
          split: option.splits then_kind.splits)
  next
    case (Rejects k err)
    with assms abort_inv_onError [OF assms K] show ?thesis
      by (simp add: deliver_def then_rejected_def split: option.splits)
  qed
qed

lemma abort_inv_run:
  assumes "abort_inv t0" and "\<not> aborted t0"
  shows "abort_inv (run_transition mp H cr evs t0)"
proof -
  obtain rq daq aq chk where ph: "reusability_phase cr t0 = (rq, daq, aq, chk)"
    by (cases "reusability_phase cr t0") auto
  have st: "abort_inv (snd (start (spec_pipeline mp H cr) done_cb t0))"
    using keeps_abort_inv_phases(3) [where k = 0 and daq = daq and aq = aq and rq = rq
        and mp = mp and H = H and cr = cr] assms ph
    unfolding keeps_abort_inv_def by (simp add: start_def runQueue_def)
  have "abort_inv (foldl (deliver mp (spec_pipeline mp H cr) rq daq aq done_cb f0) s evs)"
    if "abort_inv s" for s f0
    using that by (induction evs arbitrary: s) (simp_all add: abort_inv_deliver)
  from this [OF st] ph show ?thesis by (simp add: run_transition_def Let_def)
qed

lemma run_BA_AX:
  "trace (run_transition example_mapParams example_hooks same_component
            [Fulfils 0 (JBool True), HookCalls 1 CallAbort, HookCalls 0 (CallRedirect ''/x'')]
            (example_transition ''BA'' ''AX''))
     = [CanDeactivate (CHR ''B''), CanActivate (CHR ''X''), Replace ''/old'']"
proof -
  have phase: "reusability_phase same_component (example_transition ''BA'' ''AX'')
     = (Some ''A'', ''B'', ''X'',
        [(CHR ''A'', Some (CHR ''A'')), (CHR ''B'', Some (CHR ''X''))])"
    by (simp add: reusability_phase_def example_defs reusability.simps js_index_def)
  show ?thesis
    unfolding run_transition_phase [OF phase]
      start_phase [where P = "spec_pipeline example_mapParams example_hooks same_component",
        simplified, OF phase]
    by (simp add: pipeline_defs example_hooks_def run_defs example_defs)
qed

text \<open>
  Claim C5. Both \<^verbatim>\<open>abort\<close> and \<^verbatim>\<open>redirect\<close> leave the flag set, and nothing in the
  file clears it. Once it is set, \<^verbatim>\<open>abort\<close> and \<^verbatim>\<open>redirect\<close> (also through the exposed
  object of a hook) return the state unchanged, so the first caller wins and no second
  \<^verbatim>\<open>router.replace\<close> happens; and a hook's \<^verbatim>\<open>next\<close> does what it does without a
  continuation: it throws nothing, makes no pipeline call and leaves the flag set. Over
  a whole run, started on a transition that is not aborted, with any hooks and any later
  events: \<^verbatim>\<open>router.replace\<close> is not called while the flag is clear, it has been called
  exactly once when the flag is set, and no pipeline call follows that call.
\<close>

theorem aborted_is_sticky:
  "aborted (abort t) \<and> aborted (redirect mp p t)
   \<and> (aborted t \<longrightarrow>
        abort t = t \<and> redirect mp p t = t
      \<and> exposed_call mp c cb None CallAbort t = (None, t)
      \<and> exposed_call mp c cb None (CallRedirect p) t = (None, t)
      \<and> next_fn c cb d t = next_fn c None d t
      \<and> fst (next_fn c cb d t) = None
      \<and> aborted (snd (next_fn c cb d t))
      \<and> pipeline_calls (snd (next_fn c cb d t)) = pipeline_calls t)
   \<and> abort (abort t) = abort t \<and> redirect mp p (abort t) = abort t
   \<and> abort (redirect mp p t) = redirect mp p t
   \<and> redirect mp p' (redirect mp p t) = redirect mp p t
   \<and> (\<not> aborted t \<and> filter is_replace (trace t) = [] \<longrightarrow>
        abort_inv (run_transition mp H cr evs t))"
proof -
  have ops: "aborted (abort t) \<and> aborted (redirect mp p t)
   \<and> (aborted t \<longrightarrow>
        abort t = t \<and> redirect mp p t = t
      \<and> exposed_call mp c cb None CallAbort t = (None, t)
      \<and> exposed_call mp c cb None (CallRedirect p) t = (None, t)
      \<and> next_fn c cb d t = next_fn c None d t
      \<and> fst (next_fn c cb d t) = None
      \<and> aborted (snd (next_fn c cb d t))
      \<and> pipeline_calls (snd (next_fn c cb d t)) = pipeline_calls t)
   \<and> abort (abort t) = abort t \<and> redirect mp p (abort t) = abort t
   \<and> abort (redirect mp p t) = redirect mp p t
   \<and> redirect mp p' (redirect mp p t) = redirect mp p t"
    by (simp add: abort_idle redirect_idle exposed_call_def abort_fn_def)
       (simp add: next_fn_def warn_def log_event_def pipeline_calls_def Let_def
          split: option.splits)
  have run: "\<not> aborted t \<and> filter is_replace (trace t) = [] \<longrightarrow>
        abort_inv (run_transition mp H cr evs t)"
  proof
    assume a: "\<not> aborted t \<and> filter is_replace (trace t) = []"
    then have "abort_inv t" by (simp add: abort_inv_def)
    with a show "abort_inv (run_transition mp H cr evs t)" by (simp add: abort_inv_run)
  qed
  from ops run show ?thesis by blast
qed

theorem aborted_is_sticky_witness:
  "aborted (abort (example_transition ''A'' ''B''))
   \<and> abort (abort (example_transition ''A'' ''B'')) = abort (example_transition ''A'' ''B'')
   \<and> redirect example_mapParams ''/x'' (abort (example_transition ''A'' ''B''))
       = abort (example_transition ''A'' ''B'')
   \<and> fst (next_fn 0 (Some example_cb) JUndefined (abort (example_transition ''A'' ''B''))) = None
   \<and> trace (snd (next_fn 0 (Some example_cb) JUndefined (abort (example_transition ''A'' ''B''))))
       = [Replace ''/old'']
   \<and> \<not> aborted (example_transition ''BA'' ''AX'')
   \<and> filter is_replace (trace (example_transition ''BA'' ''AX'')) = []
   \<and> trace (run_transition example_mapParams example_hooks same_component
        [Fulfils 0 (JBool True), HookCalls 1 CallAbort, HookCalls 0 (CallRedirect ''/x'')]
        (example_transition ''BA'' ''AX''))
       = [CanDeactivate (CHR ''B''), CanActivate (CHR ''X''), Replace ''/old'']
   \<and> abort_inv (run_transition example_mapParams example_hooks same_component
        [Fulfils 0 (JBool True), HookCalls 1 CallAbort, HookCalls 0 (CallRedirect ''/x'')]
        (example_transition ''BA'' ''AX''))"
proof -
  have ops: "aborted (abort (example_transition ''A'' ''B''))
   \<and> abort (abort (example_transition ''A'' ''B'')) = abort (example_transition ''A'' ''B'')
   \<and> redirect example_mapParams ''/x'' (abort (example_transition ''A'' ''B''))
       = abort (example_transition ''A'' ''B'')
   \<and> fst (next_fn 0 (Some example_cb) JUndefined (abort (example_transition ''A'' ''B''))) = None
   \<and> trace (snd (next_fn 0 (Some example_cb) JUndefined (abort (example_transition ''A'' ''B''))))
       = [Replace ''/old'']"
    using aborted_is_sticky [where t = "abort (example_transition ''A'' ''B'')"
        and mp = example_mapParams and p = "''/x''" and c = 0 and cb = "Some example_cb"
        and d = JUndefined]
    by (simp add: run_defs example_defs)
  have init: "\<not> aborted (example_transition ''BA'' ''AX'')
      \<and> filter is_replace (trace (example_transition ''BA'' ''AX'')) = []"
    by (simp add: example_defs)
  from init
    aborted_is_sticky [where t = "example_transition ''BA'' ''AX''" and mp = example_mapParams
        and H = example_hooks and cr = same_component
        and evs = "[Fulfils 0 (JBool True), HookCalls 1 CallAbort,
                    HookCalls 0 (CallRedirect ''/x'')]"]
  have "abort_inv (run_transition example_mapParams example_hooks same_component
        [Fulfils 0 (JBool True), HookCalls 1 CallAbort, HookCalls 0 (CallRedirect ''/x'')]
        (example_transition ''BA'' ''AX''))"
    by blast
  with ops init run_BA_AX show ?thesis by blast
qed

end
